theory Spec2Isabelle
  imports Complex_Main "HOL-Library.Word" "HOL-Library.Log_Nat"
begin

unbundle bit_operations_syntax

section \<open>LinoSPAD2 data unpacking (tools/unpack\_data.py)\<close>

text \<open>
  The module decodes a \<^verbatim>\<open>.dat\<close> file of 32-bit little-endian packets into a matrix of
  256 pixel rows. Three functions do it: \<^verbatim>\<open>unpack_binary_flex\<close> (a read loop and an
  index-copy loop), \<^verbatim>\<open>unpack_numpy\<close> (vectorised decode, Fortran-order reshapes and
  transposes) and \<^verbatim>\<open>unpack_calib\<close> (vectorised decode on 64-bit integers, C-order
  reshape, and the per-pixel calibration loop).

  Conventions of the embedding:
  \<^item> a file is the list of its bytes;
  \<^item> a Python exception is a value of \<open>error\<close>, returned as \<open>Inl\<close>;
  \<^item> a Python or numpy \<^verbatim>\<open>float64\<close> value is the \<open>real\<close> number it denotes. The decoded
    timestamps, which the program only hands on as \<^verbatim>\<open>float64\<close>, are computed with exact
    arithmetic, the literal \<^verbatim>\<open>17.857\<close> being \<open>17857 / 1000\<close>. In the calibration
    correction the \<^verbatim>\<open>float64\<close> result is stored into an array of 64-bit integers, so its
    rounding decides the integer that is stored: there every operation is rounded to
    binary64 (\<open>f64\<close> below), the literal \<^verbatim>\<open>17.857\<close> being \<open>f64 (17857 / 1000)\<close>;
  \<^item> a numpy array is its shape together with its elements in C (row-major) order;
  \<^item> a run of \<^verbatim>\<open>unpack_binary_flex\<close> that never leaves its \<^verbatim>\<open>while k != noc\<close>
    loop has the value \<open>None\<close>.
\<close>

subsection \<open>Exceptions\<close>

datatype error =
    StructError          \<comment> \<open>\<^verbatim>\<open>struct.error\<close>: \<^verbatim>\<open>unpack("<I", ...)\<close> on fewer than 4 bytes\<close>
  | ValueError           \<comment> \<open>numpy: impossible reshape, or shapes that do not broadcast\<close>
  | ZeroDivisionError    \<comment> \<open>Python \<^verbatim>\<open>/\<close> with a zero divisor\<close>
  | FileNotFoundError    \<comment> \<open>raised by the external \<^verbatim>\<open>calibrate_load\<close>\<close>
  | SystemExit           \<comment> \<open>\<^verbatim>\<open>sys.exit()\<close>: the interpreter exits\<close>

subsection \<open>Bytes and packets\<close>

type_synonym byte = "8 word"
type_synonym packet = "32 word"

text \<open>\<^verbatim>\<open>unpack("<I", rawpacket)\<close> on exactly four bytes: the little-endian unsigned value.\<close>

definition unpack_I :: "byte \<Rightarrow> byte \<Rightarrow> byte \<Rightarrow> byte \<Rightarrow> packet" where
  "unpack_I b0 b1 b2 b3 =
     word_of_nat (unat b0 + 256 * unat b1 + 65536 * unat b2 + 16777216 * unat b3)"

text \<open>
  The read loop of \<^verbatim>\<open>unpack_binary_flex\<close>. \<^verbatim>\<open>f.read(4)\<close> returns the next four bytes, or
  fewer at the end of the file; an empty read leaves the loop, a read of one to three bytes
  makes \<^verbatim>\<open>unpack\<close> raise. The two lists are the accumulators \<^verbatim>\<open>timestamp_list\<close> and
  \<^verbatim>\<open>address_list\<close>.
\<close>

fun read_packets :: "byte list \<Rightarrow> real list \<Rightarrow> packet list \<Rightarrow> error + real list \<times> packet list" where
  "read_packets [] timestamp_list address_list = Inr (timestamp_list, address_list)"
| "read_packets (b0 # b1 # b2 # b3 # rest) timestamp_list address_list =
     (let packet = unpack_I b0 b1 b2 b3;
          timestamp = (if drop_bit 31 packet = 1
                       then real (unat (packet AND 0xFFFFFFF)) * (17857 / 1000)
                       else - 1);
          address = drop_bit 28 packet AND 0x3
      in read_packets rest (timestamp_list @ [timestamp]) (address_list @ [address]))"
| "read_packets _ timestamp_list address_list = Inl StructError"

text \<open>
  \<^verbatim>\<open>np.fromfile(filename, dtype=np.uint32)\<close>: the item count is the file size divided by
  the item size, rounded down, so one to three trailing bytes are not read.
\<close>

fun np_fromfile :: "byte list \<Rightarrow> packet list" where
  "np_fromfile (b0 # b1 # b2 # b3 # rest) = unpack_I b0 b1 b2 b3 # np_fromfile rest"
| "np_fromfile _ = []"

subsection \<open>numpy arrays\<close>

record 'a ndarray =
  shape :: "nat list"
  flat :: "'a list"

text \<open>Offset of a multi-index in C order (last index fastest), and its inverse.\<close>

fun ravel_C :: "nat list \<Rightarrow> nat list \<Rightarrow> nat" where
  "ravel_C (n # ns) (i # is) = i * prod_list ns + ravel_C ns is"
| "ravel_C _ _ = 0"

fun unravel_C :: "nat list \<Rightarrow> nat \<Rightarrow> nat list" where
  "unravel_C [] off = []"
| "unravel_C (n # ns) off = off div prod_list ns # unravel_C ns (off mod prod_list ns)"

text \<open>The same in Fortran order (first index fastest).\<close>

definition ravel_F :: "nat list \<Rightarrow> nat list \<Rightarrow> nat" where
  "ravel_F ns is = ravel_C (rev ns) (rev is)"

definition unravel_F :: "nat list \<Rightarrow> nat \<Rightarrow> nat list" where
  "unravel_F ns off = rev (unravel_C (rev ns) off)"

text \<open>\<^verbatim>\<open>a[i0, i1, ...]\<close> for an index inside the shape.\<close>

definition item :: "'a ndarray \<Rightarrow> nat list \<Rightarrow> 'a" where
  "item a is = flat a ! ravel_C (shape a) is"

text \<open>
  A shape argument may hold one \<^verbatim>\<open>-1\<close>, which numpy replaces by the size divided by the
  product of the other dimensions; that fails when the division is not exact or is by zero.
\<close>

definition infer_shape :: "nat \<Rightarrow> int list \<Rightarrow> error + nat list" where
  "infer_shape sz dims =
     (let known = prod_list (map nat (filter (\<lambda>d. d \<noteq> - 1) dims))
      in if - 1 \<in> set dims
         then (if known = 0 then Inl ValueError
               else if sz mod known = 0
                    then Inr (map (\<lambda>d. if d = - 1 then sz div known else nat d) dims)
                    else Inl ValueError)
         else Inr (map nat dims))"

datatype order = C_order | F_order

text \<open>
  \<^verbatim>\<open>a.reshape(dims, order=...)\<close>: the elements of \<open>a\<close> are read in the given index order and
  placed into the new shape in the same index order. The total size must not change.
\<close>

definition reshape :: "'a ndarray \<Rightarrow> int list \<Rightarrow> order \<Rightarrow> error + 'a ndarray" where
  "reshape a dims ord =
     (case infer_shape (length (flat a)) dims of
        Inl e \<Rightarrow> Inl e
      | Inr ns \<Rightarrow>
          if prod_list ns \<noteq> length (flat a) then Inl ValueError
          else (case ord of
                  C_order \<Rightarrow> Inr \<lparr>shape = ns, flat = flat a\<rparr>
                | F_order \<Rightarrow> Inr \<lparr>shape = ns,
                           flat = map (\<lambda>off. item a (unravel_F (shape a) (ravel_F ns (unravel_C ns off))))
                                      [0..<prod_list ns]\<rparr>))"

text \<open>
  \<^verbatim>\<open>a.transpose(axes)\<close>: axis \<open>j\<close> of the result is axis \<open>axes ! j\<close> of \<open>a\<close>, so the source
  index along axis \<open>d\<close> is the result index at the position of \<open>d\<close> in \<open>axes\<close>.
  The source only passes permutations of the axes.
\<close>

definition position :: "nat \<Rightarrow> nat list \<Rightarrow> nat" where
  "position d axes = length (takeWhile (\<lambda>x. x \<noteq> d) axes)"

definition transpose_nd :: "'a ndarray \<Rightarrow> nat list \<Rightarrow> 'a ndarray" where
  "transpose_nd a axes =
     (let ns = map (\<lambda>ax. shape a ! ax) axes
      in \<lparr>shape = ns,
          flat = map (\<lambda>off. item a (map (\<lambda>d. unravel_C ns off ! position d axes) [0..<length axes]))
                     [0..<prod_list ns]\<rparr>)"

text \<open>\<^verbatim>\<open>np.zeros(shape)\<close>.\<close>

definition np_zeros :: "nat list \<Rightarrow> real ndarray" where
  "np_zeros ns = \<lparr>shape = ns, flat = replicate (prod_list ns) 0\<rparr>"

subsection \<open>\<^verbatim>\<open>unpack_binary_flex\<close>\<close>

text \<open>\<^verbatim>\<open>xs[lo:hi]\<close> on a Python list with \<open>0 \<le> lo \<le> hi\<close>: the bounds are clipped.\<close>

definition py_slice :: "'a list \<Rightarrow> nat \<Rightarrow> nat \<Rightarrow> 'a list" where
  "py_slice xs lo hi = take (hi - lo) (drop lo xs)"

text \<open>
  \<^verbatim>\<open>data_matrix[i][lo:hi] = src\<close> on a two-dimensional array with \<open>lo \<le> hi\<close> and \<open>i\<close> a
  valid row. The slice is clipped to the row; \<open>src\<close> is copied when its length is the
  length of the slice, repeated when its length is 1, and refused by numpy otherwise.
\<close>

definition set_row_slice :: "'a ndarray \<Rightarrow> nat \<Rightarrow> nat \<Rightarrow> nat \<Rightarrow> 'a list \<Rightarrow> error + 'a ndarray" where
  "set_row_slice a i lo hi src =
     (let cols = shape a ! 1;
          lo' = min lo cols;
          hi' = min hi cols;
          vals = (if length src = hi' - lo' then Some src
                  else if length src = 1 then Some (replicate (hi' - lo') (hd src))
                  else None)
      in case vals of
           None \<Rightarrow> Inl ValueError
         | Some vs \<Rightarrow>
             Inr (a\<lparr>flat := take (i * cols + lo') (flat a) @ vs @ drop (i * cols + hi') (flat a)\<rparr>))"

text \<open>The inner loop \<^verbatim>\<open>while i < 256\<close> of the packing step, from the current \<open>i\<close>.\<close>

function pack_pixels :: "nat \<Rightarrow> real list \<Rightarrow> nat \<Rightarrow> nat \<Rightarrow> real ndarray \<Rightarrow> error + real ndarray" where
  "pack_pixels lines_of_data timestamp_list k i data_matrix =
     (if i < 256
      then (case set_row_slice data_matrix i (k * lines_of_data) (k * lines_of_data + lines_of_data)
                   (py_slice timestamp_list ((i + 256 * k) * lines_of_data)
                                            ((i + 256 * k) * lines_of_data + lines_of_data)) of
              Inl e \<Rightarrow> Inl e
            | Inr data_matrix' \<Rightarrow> pack_pixels lines_of_data timestamp_list k (i + 1) data_matrix')
      else Inr data_matrix)"
  by pat_completeness auto
termination
  by (relation "measure (\<lambda>(lines_of_data, timestamp_list, k, i, data_matrix). 256 - i)") auto

declare pack_pixels.simps [simp del]

text \<open>
  The outer loop \<^verbatim>\<open>while k != noc\<close>, from the current \<open>k\<close>. \<open>k\<close> is a Python integer and
  \<open>noc\<close> a float; the loop is left only when they are equal.
\<close>

partial_function (option) pack_cycles ::
    "nat \<Rightarrow> real list \<Rightarrow> real \<Rightarrow> nat \<Rightarrow> real ndarray \<Rightarrow> (error + real ndarray) option" where
  "pack_cycles lines_of_data timestamp_list noc k data_matrix =
     (if real k \<noteq> noc
      then (case pack_pixels lines_of_data timestamp_list k 0 data_matrix of
              Inl e \<Rightarrow> Some (Inl e)
            | Inr data_matrix' \<Rightarrow> pack_cycles lines_of_data timestamp_list noc (k + 1) data_matrix')
      else Some (Inr data_matrix))"

declare pack_cycles.simps [code]

text \<open>The matrix allocated before the packing step.\<close>

definition flex_alloc :: "real list \<Rightarrow> real ndarray" where
  "flex_alloc timestamp_list = np_zeros [256, nat \<lfloor>real (length timestamp_list) / 256\<rfloor>]"

text \<open>Everything after the read loop: allocation, \<open>noc\<close>, and the packing loops.\<close>

definition flex_pack :: "real list \<Rightarrow> nat \<Rightarrow> (error + real ndarray) option" where
  "flex_pack timestamp_list lines_of_data =
     (let data_matrix = flex_alloc timestamp_list
      in if lines_of_data = 0 then Some (Inl ZeroDivisionError)
         else pack_cycles lines_of_data timestamp_list
                (real (length timestamp_list) / real lines_of_data / 256) 0 data_matrix)"

definition unpack_binary_flex :: "byte list \<Rightarrow> nat \<Rightarrow> (error + real ndarray) option" where
  "unpack_binary_flex file lines_of_data =
     (case read_packets file [] [] of
        Inl e \<Rightarrow> Some (Inl e)
      | Inr (timestamp_list, address_list) \<Rightarrow> flex_pack timestamp_list lines_of_data)"

subsection \<open>\<^verbatim>\<open>unpack_numpy\<close>\<close>

text \<open>
  The vectorised decode: \<^verbatim>\<open>(rawFile & 0xFFFFFFF).astype(int) * 17.857\<close>, then \<open>-1\<close> written
  wherever \<^verbatim>\<open>rawFile < 0x80000000\<close>.
\<close>

definition numpy_decode :: "packet list \<Rightarrow> real list" where
  "numpy_decode rawFile =
     map (\<lambda>w. if w < 0x80000000 then - 1 else real_of_int (uint (w AND 0xFFFFFFF)) * (17857 / 1000))
         rawFile"

text \<open>Sequencing of steps that may raise.\<close>

definition bind_err :: "error + 'a \<Rightarrow> ('a \<Rightarrow> error + 'b) \<Rightarrow> error + 'b" where
  "bind_err r f = (case r of Inl e \<Rightarrow> Inl e | Inr x \<Rightarrow> f x)"

text \<open>The cycle count and the chain of reshapes and transposes, on the decoded values.\<close>

definition numpy_reshape :: "real list \<Rightarrow> nat \<Rightarrow> error + real ndarray" where
  "numpy_reshape data lines_of_data =
     (if lines_of_data = 0 then Inl ZeroDivisionError
      else
        let nmrCycles = nat \<lfloor>real (length data) / real lines_of_data / 256\<rfloor>
        in bind_err (reshape \<lparr>shape = [length data], flat = data\<rparr>
                       [int lines_of_data, int (nmrCycles * 256)] F_order) (\<lambda>a1.
           bind_err (reshape a1 [int lines_of_data, 256, - 1] F_order) (\<lambda>a2.
           bind_err (reshape (transpose_nd a2 [0, 2, 1]) [- 1, 256] F_order) (\<lambda>a3.
           Inr (transpose_nd a3 [1, 0])))))"

definition unpack_numpy :: "byte list \<Rightarrow> nat \<Rightarrow> error + real ndarray" where
  "unpack_numpy file lines_of_data =
     (let rawFile = np_fromfile file;
          data = numpy_decode rawFile
      in numpy_reshape data lines_of_data)"

subsection \<open>\<^verbatim>\<open>unpack_calib\<close>\<close>

text \<open>
  The decode on 64-bit integers: \<^verbatim>\<open>(rawFile & 0xFFFFFFF).astype(np.longlong)\<close>, then \<open>-1\<close>
  wherever \<^verbatim>\<open>rawFile < 0x80000000\<close>. A 28-bit count always fits.
\<close>

definition calib_decode :: "packet list \<Rightarrow> int list" where
  "calib_decode rawFile =
     map (\<lambda>w. if w < 0x80000000 then - 1 else uint (w AND 0xFFFFFFF)) rawFile"

text \<open>The decode and the reshape of \<^verbatim>\<open>unpack_calib\<close>, up to the load of the calibration.\<close>

definition calib_reshape :: "int list \<Rightarrow> nat \<Rightarrow> error + int ndarray" where
  "calib_reshape data timestamps =
     (if timestamps = 0 then Inl ZeroDivisionError
      else
        let cycles = nat \<lfloor>real (length data) / real timestamps / 256\<rfloor>
        in bind_err (reshape \<lparr>shape = [length data], flat = data\<rparr>
                       [int cycles, 256, int timestamps] C_order) (\<lambda>a1.
           reshape (transpose_nd a1 [1, 0, 2]) [256, int (timestamps * cycles)] C_order))"

text \<open>
  Storing a \<^verbatim>\<open>float64\<close> into an array of \<^verbatim>\<open>longlong\<close>: numpy converts with the C cast,
  which drops the fractional part (rounds towards zero). The cast is defined for values of
  magnitude below \<open>2 ^ 63\<close>; only those are modelled.
\<close>

definition to_longlong :: "real \<Rightarrow> int" where
  "to_longlong x = (if 0 \<le> x then \<lfloor>x\<rfloor> else \<lceil>x\<rceil>)"

subsection \<open>Binary64 rounding\<close>

text \<open>
  The calibration computes in \<^verbatim>\<open>float64\<close> (IEEE 754 binary64, round to nearest, ties to
  even) and stores the result into an integer array, so the rounding of each operation is
  part of the stored value. \<open>f64 x\<close> is the binary64 number nearest to the real \<open>x\<close>: with
  \<open>e\<close> the binary exponent of \<open>x\<close> (\<open>2 ^ e \<le> \<bar>x\<bar> < 2 ^ (e + 1)\<close>), not below the
  exponent \<open>-1022\<close> of the subnormal numbers, the neighbours of \<open>x\<close> are the multiples of
  \<open>2 ^ (e - 52)\<close>, and \<open>x\<close> goes to the nearest one, to the even one on a tie. Overflow to
  infinity (magnitudes from \<open>2 ^ 1024\<close> on) and NaN are not modelled.
\<close>

definition pow2 :: "int \<Rightarrow> real" where
  "pow2 e = (if 0 \<le> e then 2 ^ nat e else 1 / 2 ^ nat (- e))"

definition f64_exponent :: "real \<Rightarrow> int" where
  "f64_exponent x =
     (if 1 \<le> \<bar>x\<bar> then int (floorlog 2 (nat \<lfloor>\<bar>x\<bar>\<rfloor>)) - 1
      else - int (floorlog 2 (nat (\<lceil>1 / \<bar>x\<bar>\<rceil> - 1))))"

definition round_half_even :: "real \<Rightarrow> int" where
  "round_half_even q =
     (if q - real_of_int \<lfloor>q\<rfloor> < 1 / 2 then \<lfloor>q\<rfloor>
      else if 1 / 2 < q - real_of_int \<lfloor>q\<rfloor> then \<lfloor>q\<rfloor> + 1
      else if even \<lfloor>q\<rfloor> then \<lfloor>q\<rfloor> else \<lfloor>q\<rfloor> + 1)"

definition f64 :: "real \<Rightarrow> real" where
  "f64 x =
     (if x = 0 then 0
      else let ulp = pow2 (max (f64_exponent x) (- 1022) - 52)
           in real_of_int (round_half_even (x / ulp)) * ulp)"

text \<open>
  The right-hand side of the calibration assignment for one element \<open>v \<ge> 0\<close> of row \<open>i\<close>,
  a \<^verbatim>\<open>float64\<close>: the \<^verbatim>\<open>longlong\<close> difference \<^verbatim>\<open>v - v % 140\<close> is converted to \<^verbatim>\<open>float64\<close>
  and multiplied by the \<^verbatim>\<open>float64\<close> literal \<^verbatim>\<open>17.857\<close>, and the table entry is added; the
  conversion, the product and the sum are each rounded. \<open>cal_mat\<close> is the table returned by
  \<^verbatim>\<open>calibrate_load\<close>, an array of \<^verbatim>\<open>float64\<close>, each entry given as the real it denotes.
\<close>

definition calib_value :: "(nat \<Rightarrow> nat \<Rightarrow> real) \<Rightarrow> nat \<Rightarrow> int \<Rightarrow> real" where
  "calib_value cal_mat i v =
     f64 (f64 (f64 (real_of_int (v - v mod 140)) * f64 (17857 / 1000))
          + cal_mat i (nat (v mod 140)))"

text \<open>
  What the calibration assignment leaves in one cell of row \<open>i\<close>: a cell selected by
  \<^verbatim>\<open>np.where(data_matrix[i] >= 0)\<close> receives the computed value, converted to the integer
  type of the array; any other cell keeps its value.
\<close>

definition calib_element :: "(nat \<Rightarrow> nat \<Rightarrow> real) \<Rightarrow> nat \<Rightarrow> int \<Rightarrow> int" where
  "calib_element cal_mat i v = (if v \<ge> 0 then to_longlong (calib_value cal_mat i v) else v)"

text \<open>One pass of the body of \<^verbatim>\<open>for i in range(256)\<close>, on row \<open>i\<close> of the array.\<close>

definition calib_row :: "(nat \<Rightarrow> nat \<Rightarrow> real) \<Rightarrow> int ndarray \<Rightarrow> nat \<Rightarrow> int ndarray" where
  "calib_row cal_mat data_matrix i =
     (let cols = shape data_matrix ! 1
      in data_matrix\<lparr>flat :=
           take (i * cols) (flat data_matrix)
           @ map (calib_element cal_mat i) (take cols (drop (i * cols) (flat data_matrix)))
           @ drop (i * cols + cols) (flat data_matrix)\<rparr>)"

definition calib_loop :: "(nat \<Rightarrow> nat \<Rightarrow> real) \<Rightarrow> int ndarray \<Rightarrow> int ndarray" where
  "calib_loop cal_mat data_matrix = foldl (calib_row cal_mat) data_matrix [0..<256]"

text \<open>
  \<^verbatim>\<open>calibrate_load\<close> is not part of this module; its outcome is a parameter: the table,
  or the exception it raised. \<^verbatim>\<open>FileNotFoundError\<close> is caught, a message is printed and
  \<^verbatim>\<open>sys.exit()\<close> is called; any other exception propagates.
\<close>

definition unpack_calib ::
    "byte list \<Rightarrow> error + (nat \<Rightarrow> nat \<Rightarrow> real) \<Rightarrow> nat \<Rightarrow> error + int ndarray" where
  "unpack_calib file calibrate_load timestamps =
     (let rawFile = np_fromfile file;
          data = calib_decode rawFile
      in bind_err (calib_reshape data timestamps) (\<lambda>data_matrix.
           case calibrate_load of
             Inl FileNotFoundError \<Rightarrow> Inl SystemExit
           | Inl e \<Rightarrow> Inl e
           | Inr cal_mat \<Rightarrow> Inr (calib_loop cal_mat data_matrix)))"


subsection \<open>The decoded value of one packet, as specified\<close>

text \<open>
  The specification gives the decoded value of a packet by its most significant bit:
  \<open>-1\<close> when bit 31 is 0, the low 28 bits times 17.857 when it is 1. The decoders of the
  module are compared with this function.
\<close>

definition spec_timestamp :: "packet \<Rightarrow> real" where
  "spec_timestamp w =
     (if bit w 31 then real (unat (w AND 0x0FFFFFFF)) * (17857 / 1000) else - 1)"

section \<open>Properties\<close>

subsection \<open>Decoding\<close>

lemma odd_div_top:
  fixes n :: nat
  assumes "n < 4294967296"
  shows "odd (n div 2147483648) = (\<not> n < 2147483648)"
proof (cases "n < 2147483648")
  case True
  then show ?thesis by simp
next
  case False
  have "n div 2147483648 = 1"
    by (rule div_nat_eqI) (use False assms in simp_all)
  then show ?thesis using False by simp
qed

lemma msb_less: "((w :: packet) < 0x80000000) = (\<not> bit w 31)"
proof -
  have b: "unat w < 4294967296" using unsigned_less [of w] by simp
  have "bit w 31 = bit (unat w) 31" by (simp add: bit_unsigned_iff)
  also have "\<dots> = odd (unat w div 2147483648)" by (simp add: bit_iff_odd)
  also have "\<dots> = (\<not> unat w < 2147483648)" by (rule odd_div_top [OF b])
  finally show ?thesis by (simp add: word_less_nat_alt)
qed

lemma np_fromfile_length: "length (np_fromfile bs) = length bs div 4"
  by (induction bs rule: np_fromfile.induct) simp_all

lemma msb_drop_bit: "(drop_bit 31 (w :: packet) = 1) = bit w 31"
  apply (rule iffI)
   apply (simp add: bit_iff_odd_drop_bit)
  apply (rule bit_word_eqI)
  apply (auto simp add: bit_simps bit_1_iff dest: bit_imp_le_length)
  done

lemma dvd4_Suc4: "(4 dvd Suc (Suc (Suc (Suc n)))) = (4 dvd n)"
  by presburger

lemma dvd4_small: "\<not> 4 dvd Suc 0" "\<not> 4 dvd Suc (Suc 0)" "\<not> 4 dvd Suc (Suc (Suc 0))"
  by presburger+

lemma read_packets_eq:
  "read_packets bs tsl adl =
     (if 4 dvd length bs
      then Inr (tsl @ map spec_timestamp (np_fromfile bs),
                adl @ map (\<lambda>w. drop_bit 28 w AND 0x3) (np_fromfile bs))
      else Inl StructError)"
proof (induction bs tsl adl rule: read_packets.induct)
  case (1 tsl adl)
  show ?case by simp
next
  case (2 b0 b1 b2 b3 rest tsl adl)
  then show ?case by (simp add: Let_def spec_timestamp_def msb_drop_bit dvd4_Suc4)
qed (simp_all add: dvd4_small)

lemma numpy_decode_eq: "numpy_decode ws = map spec_timestamp ws"
  by (simp add: numpy_decode_def spec_timestamp_def msb_less)

lemma np_fromfile_nth:
  "j < length bs div 4 \<Longrightarrow>
   np_fromfile bs ! j = unpack_I (bs ! (4 * j)) (bs ! (4 * j + 1)) (bs ! (4 * j + 2)) (bs ! (4 * j + 3))"
proof (induction bs arbitrary: j rule: np_fromfile.induct)
  case (1 b0 b1 b2 b3 rest)
  show ?case
  proof (cases j)
    case 0
    then show ?thesis by simp
  next
    case (Suc j')
    have e: "4 * Suc j' = Suc (Suc (Suc (Suc (4 * j'))))" by simp
    have "j' < length rest div 4" using 1(2) Suc by simp
    from 1(1) [OF this] show ?thesis unfolding Suc e by (simp add: add.commute [of 3 "4 * j'"])
  qed
qed simp_all

lemma np_fromfile_short: "length xs < 4 \<Longrightarrow> np_fromfile xs = []"
  by (induction xs rule: np_fromfile.induct) simp_all

lemma np_fromfile_append:
  "4 dvd length bs \<Longrightarrow> length tail < 4 \<Longrightarrow> np_fromfile (bs @ tail) = np_fromfile bs"
proof (induction bs rule: np_fromfile.induct)
  case (1 b0 b1 b2 b3 rest)
  then show ?case by (simp add: dvd4_Suc4)
qed (simp_all add: np_fromfile_short dvd4_small)


lemma floor_div_256: "nat \<lfloor>real n / 256\<rfloor> = n div 256"
proof -
  have "real n / 256 = real n / real 256" by simp
  then show ?thesis by (simp only: floor_divide_of_nat_eq nat_int)
qed

lemma unpack_binary_flex_eq:
  "unpack_binary_flex file T =
     (if 4 dvd length file then flex_pack (map spec_timestamp (np_fromfile file)) T
      else Some (Inl StructError))"
  by (simp add: unpack_binary_flex_def read_packets_eq)

lemma unpack_numpy_eq:
  "unpack_numpy file T = numpy_reshape (map spec_timestamp (np_fromfile file)) T"
  by (simp add: unpack_numpy_def numpy_decode_eq)

text \<open>
  C3. A file of whole packets decodes to one value per packet, in file order, in both
  \<^verbatim>\<open>unpack_binary_flex\<close> and \<^verbatim>\<open>unpack_numpy\<close>: the value of the \<open>j\<close>-th packet is \<open>-1\<close>
  when its bit 31 is 0 and its low 28 bits times 17.857 when that bit is 1.
\<close>

theorem C3_one_value_per_packet:
  assumes "4 dvd length file" and "j < length file div 4"
  shows "\<exists>timestamp_list address_list.
           read_packets file [] [] = Inr (timestamp_list, address_list)
         \<and> length timestamp_list = length file div 4
         \<and> length (numpy_decode (np_fromfile file)) = length file div 4
         \<and> timestamp_list ! j =
             spec_timestamp (unpack_I (file ! (4 * j)) (file ! (4 * j + 1))
                                      (file ! (4 * j + 2)) (file ! (4 * j + 3)))
         \<and> numpy_decode (np_fromfile file) ! j = timestamp_list ! j"
  using assms
  by (simp add: read_packets_eq numpy_decode_eq np_fromfile_length np_fromfile_nth)

theorem C3_one_value_per_packet_witness:
  "4 dvd length [1, 0, 0, 0x80, 5, 0, 0, 0x10 :: byte]
   \<and> 1 < length [1, 0, 0, 0x80, 5, 0, 0, 0x10 :: byte] div 4
   \<and> read_packets [1, 0, 0, 0x80, 5, 0, 0, 0x10] [] [] = Inr ([17857 / 1000, - 1], [0, 1])
   \<and> (\<exists>timestamp_list address_list.
           read_packets [1, 0, 0, 0x80, 5, 0, 0, 0x10] [] [] = Inr (timestamp_list, address_list)
         \<and> timestamp_list ! 1 = spec_timestamp (unpack_I 5 0 0 0x10))"
proof -
  let ?file = "[1, 0, 0, 0x80, 5, 0, 0, 0x10] :: byte list"
  have h1: "4 dvd length ?file" by (simp add: dvd4_Suc4)
  have h2: "1 < length ?file div 4" by simp
  have e: "read_packets ?file [] [] = Inr ([17857 / 1000, - 1], [0, 1])"
    by (simp add: unpack_I_def)
  from C3_one_value_per_packet [OF h1 h2] obtain timestamp_list address_list where
    r: "read_packets ?file [] [] = Inr (timestamp_list, address_list)" and
    v: "timestamp_list ! 1 =
          spec_timestamp (unpack_I (?file ! (4 * 1)) (?file ! (4 * 1 + 1))
                                   (?file ! (4 * 1 + 2)) (?file ! (4 * 1 + 3)))"
    by blast
  have "?file ! (4 * 1) = 5" "?file ! (4 * 1 + 1) = 0" "?file ! (4 * 1 + 2) = 0"
       "?file ! (4 * 1 + 3) = 0x10"
    by simp_all
  with v have "timestamp_list ! 1 = spec_timestamp (unpack_I 5 0 0 0x10)" by simp
  with r h1 h2 e show ?thesis by blast
qed

subsection \<open>The packing loops of \<^verbatim>\<open>unpack_binary_flex\<close>\<close>

lemma row_offset_mono: "(i::nat) < i' \<Longrightarrow> i * c + c \<le> i' * c"
proof -
  assume "i < i'"
  then have "Suc i * c \<le> i' * c" by (intro mult_le_mono1) simp
  then show ?thesis by (simp add: add.commute)
qed

lemma splice_nth:
  assumes "p \<le> q" and "q \<le> length xs" and "length vs = q - p" and "off < length xs"
  shows "(take p xs @ vs @ drop q xs) ! off =
           (if p \<le> off \<and> off < q then vs ! (off - p) else xs ! off)"
  using assms by (auto simp add: nth_append min_absorb2)

lemma splice_length:
  assumes "p \<le> q" and "q \<le> length xs" and "length vs = q - p"
  shows "length (take p xs @ vs @ drop q xs) = length xs"
  using assms by simp

lemma set_row_slice_ok:
  assumes sh: "shape a = [256, c]" and len: "length (flat a) = 256 * c"
      and i: "i < 256" and lohi: "lo \<le> hi" "hi \<le> c" and src: "length src = hi - lo"
  shows "\<exists>a'. set_row_slice a i lo hi src = Inr a' \<and> shape a' = [256, c]
           \<and> length (flat a') = 256 * c
           \<and> (\<forall>i'<256. \<forall>j<c. flat a' ! (i' * c + j) =
                 (if i' = i \<and> lo \<le> j \<and> j < hi then src ! (j - lo) else flat a ! (i' * c + j)))"
proof -
  define a' where "a' = a\<lparr>flat := take (i * c + lo) (flat a) @ src @ drop (i * c + hi) (flat a)\<rparr>"
  have e: "set_row_slice a i lo hi src = Inr a'"
    using lohi src by (simp add: set_row_slice_def sh Let_def a'_def min_absorb1)
  have b: "i * c + hi \<le> length (flat a)"
    using row_offset_mono [OF i, of c] lohi len by linarith
  have pq: "i * c + lo \<le> i * c + hi" using lohi by simp
  have sl: "length src = (i * c + hi) - (i * c + lo)" using src by simp
  have l: "length (flat a') = 256 * c"
    unfolding a'_def using splice_length [OF pq b sl] len by simp
  have n: "flat a' ! (i' * c + j) =
            (if i' = i \<and> lo \<le> j \<and> j < hi then src ! (j - lo) else flat a ! (i' * c + j))"
    if i': "i' < 256" and j: "j < c" for i' j
  proof -
    have off: "i' * c + j < length (flat a)"
      using row_offset_mono [OF i', of c] j len by linarith
    have s: "flat a' ! (i' * c + j) =
          (if i * c + lo \<le> i' * c + j \<and> i' * c + j < i * c + hi
           then src ! (i' * c + j - (i * c + lo)) else flat a ! (i' * c + j))"
      unfolding a'_def using splice_nth [OF pq b sl off] by simp
    consider "i' < i" | "i' = i" | "i < i'" by linarith
    then show ?thesis
    proof cases
      case 1
      from row_offset_mono [OF 1, of c] j have "i' * c + j < i * c + lo" by linarith
      with 1 s show ?thesis by simp
    next
      case 2
      with s show ?thesis by simp
    next
      case 3
      from row_offset_mono [OF 3, of c] lohi have "\<not> i' * c + j < i * c + hi" by linarith
      with 3 s show ?thesis by simp
    qed
  qed
  from e l n show ?thesis by (auto simp add: a'_def sh)
qed


lemma py_slice_full:
  assumes "lo + n \<le> length xs"
  shows "length (py_slice xs lo (lo + n)) = n"
    and "s < n \<Longrightarrow> py_slice xs lo (lo + n) ! s = xs ! (lo + s)"
  using assms by (simp_all add: py_slice_def)

lemma pack_pixels_ok:
  assumes "shape dm = [256, c]" and "length (flat dm) = 256 * c"
      and "k * T + T \<le> c" and "(256 + 256 * k) * T \<le> length ts"
  shows "\<exists>dm'. pack_pixels T ts k i dm = Inr dm' \<and> shape dm' = [256, c]
           \<and> length (flat dm') = 256 * c
           \<and> (\<forall>i'<256. \<forall>j<c. flat dm' ! (i' * c + j) =
                 (if i \<le> i' \<and> k * T \<le> j \<and> j < k * T + T
                  then ts ! ((i' + 256 * k) * T + (j - k * T)) else flat dm ! (i' * c + j)))"
  using assms
proof (induction T ts k i dm rule: pack_pixels.induct)
  case (1 T ts k i dm)
  show ?case
  proof (cases "i < 256")
    case False
    then have "pack_pixels T ts k i dm = Inr dm"
      by (subst pack_pixels.simps) simp
    with False "1.prems" show ?thesis by simp
  next
    case True
    let ?lo = "(i + 256 * k) * T"
    let ?src = "py_slice ts ?lo (?lo + T)"
    have "Suc (i + 256 * k) * T \<le> (256 + 256 * k) * T"
      using True by (intro mult_le_mono1) simp
    then have fit: "?lo + T \<le> length ts" using "1.prems"(4) by simp
    have srclen: "length ?src = k * T + T - k * T"
      using py_slice_full(1) [OF fit] by simp
    from set_row_slice_ok [OF "1.prems"(1) "1.prems"(2) True _ "1.prems"(3) srclen]
    obtain a' where
      a: "set_row_slice dm i (k * T) (k * T + T) ?src = Inr a'" and
      ash: "shape a' = [256, c]" and alen: "length (flat a') = 256 * c" and
      anth: "\<And>i' j. i' < 256 \<Longrightarrow> j < c \<Longrightarrow> flat a' ! (i' * c + j) =
                 (if i' = i \<and> k * T \<le> j \<and> j < k * T + T then ?src ! (j - k * T)
                  else flat dm ! (i' * c + j))"
      by auto
    from "1.IH" [OF True a ash alen "1.prems"(3) "1.prems"(4)]
    obtain dm' where
      d: "pack_pixels T ts k (i + 1) a' = Inr dm'" and
      dsh: "shape dm' = [256, c]" and dlen: "length (flat dm') = 256 * c" and
      dnth: "\<And>i' j. i' < 256 \<Longrightarrow> j < c \<Longrightarrow> flat dm' ! (i' * c + j) =
                 (if i + 1 \<le> i' \<and> k * T \<le> j \<and> j < k * T + T
                  then ts ! ((i' + 256 * k) * T + (j - k * T)) else flat a' ! (i' * c + j))"
      by auto
    have e: "pack_pixels T ts k i dm = Inr dm'"
      by (subst pack_pixels.simps) (use d in \<open>simp add: True a\<close>)
    have n: "flat dm' ! (i' * c + j) =
                 (if i \<le> i' \<and> k * T \<le> j \<and> j < k * T + T
                  then ts ! ((i' + 256 * k) * T + (j - k * T)) else flat dm ! (i' * c + j))"
      if i': "i' < 256" and j: "j < c" for i' j
    proof (cases "i' = i \<and> k * T \<le> j \<and> j < k * T + T")
      case True
      then have "j - k * T < T" by linarith
      from py_slice_full(2) [OF fit this] True dnth [OF i' j] anth [OF i' j]
      show ?thesis by simp
    next
      case False
      with dnth [OF i' j] anth [OF i' j] show ?thesis by auto
    qed
    from e dsh dlen n show ?thesis by blast
  qed
qed

lemma div_mod_block:
  fixes j :: nat
  assumes "k * T \<le> j" and "j < k * T + T"
  shows "j div T = k" and "j mod T = j - k * T"
proof -
  obtain s where s: "j = s + k * T" and sT: "s < T"
    using assms by (metis add.commute le_Suc_ex nat_add_left_cancel_less)
  from sT have "0 < T" by simp
  with s sT show "j div T = k" by simp
  from s sT show "j mod T = j - k * T" by simp
qed

lemma pack_cycles_ok:
  assumes "length ts = 256 * (T * C)" and "shape dm = [256, T * C]"
      and "length (flat dm) = 256 * (T * C)" and "k \<le> C"
  shows "\<exists>m. pack_cycles T ts (real C) k dm = Some (Inr m) \<and> shape m = [256, T * C]
           \<and> length (flat m) = 256 * (T * C)
           \<and> (\<forall>i'<256. \<forall>j<T * C. flat m ! (i' * (T * C) + j) =
                 (if k * T \<le> j then ts ! ((i' + 256 * (j div T)) * T + j mod T)
                  else flat dm ! (i' * (T * C) + j)))"
  using assms
proof (induction n \<equiv> "C - k" arbitrary: k dm)
  case 0
  then have kC: "k = C" by simp
  have "pack_cycles T ts (real C) k dm = Some (Inr dm)"
    by (subst pack_cycles.simps) (simp add: kC)
  moreover have "\<not> k * T \<le> j" if "j < T * C" for j
    using that kC by (simp add: mult.commute)
  ultimately show ?case using "0.prems" by simp
next
  case (Suc n)
  then have kC: "k < C" by simp
  then have "Suc k * T \<le> C * T" by (intro mult_le_mono1) simp
  then have f1: "k * T + T \<le> T * C" by (simp add: mult.commute)
  then have f2: "(256 + 256 * k) * T \<le> length ts"
    using Suc.prems(1) by (simp add: algebra_simps)
  from pack_pixels_ok [OF Suc.prems(2) Suc.prems(3) f1 f2, of 0]
  obtain dm1 where
    p: "pack_pixels T ts k 0 dm = Inr dm1" and
    sh1: "shape dm1 = [256, T * C]" and len1: "length (flat dm1) = 256 * (T * C)" and
    nth1: "\<And>i' j. i' < 256 \<Longrightarrow> j < T * C \<Longrightarrow> flat dm1 ! (i' * (T * C) + j) =
                 (if k * T \<le> j \<and> j < k * T + T
                  then ts ! ((i' + 256 * k) * T + (j - k * T)) else flat dm ! (i' * (T * C) + j))"
    by auto
  have n: "n = C - (k + 1)" using Suc.hyps(2) by simp
  have k1: "k + 1 \<le> C" using kC by simp
  from Suc.hyps(1) [OF n Suc.prems(1) sh1 len1 k1]
  obtain m where
    c: "pack_cycles T ts (real C) (k + 1) dm1 = Some (Inr m)" and
    shm: "shape m = [256, T * C]" and lenm: "length (flat m) = 256 * (T * C)" and
    nthm: "\<And>i' j. i' < 256 \<Longrightarrow> j < T * C \<Longrightarrow> flat m ! (i' * (T * C) + j) =
                 (if (k + 1) * T \<le> j then ts ! ((i' + 256 * (j div T)) * T + j mod T)
                  else flat dm1 ! (i' * (T * C) + j))"
    by auto
  have e: "pack_cycles T ts (real C) k dm = Some (Inr m)"
    by (subst pack_cycles.simps) (use kC c in \<open>simp add: p\<close>)
  have "flat m ! (i' * (T * C) + j) =
                 (if k * T \<le> j then ts ! ((i' + 256 * (j div T)) * T + j mod T)
                  else flat dm ! (i' * (T * C) + j))"
    if i': "i' < 256" and j: "j < T * C" for i' j
  proof (cases "k * T \<le> j \<and> j < k * T + T")
    case True
    then have "j div T = k" "j mod T = j - k * T" by (simp_all add: div_mod_block)
    with True nthm [OF i' j] nth1 [OF i' j] show ?thesis by simp
  next
    case False
    with nthm [OF i' j] nth1 [OF i' j] show ?thesis by auto
  qed
  with e shm lenm show ?case by blast
qed

lemma noc_exact:
  assumes "0 < T" and "n = 256 * (T * C)"
  shows "real n / real T / 256 = real C"
  using assms by simp

lemma flex_pack_ok:
  assumes "0 < T" and "length ts = 256 * (T * C)"
  shows "\<exists>m. flex_pack ts T = Some (Inr m) \<and> shape m = [256, T * C]
           \<and> length (flat m) = 256 * (T * C)
           \<and> (\<forall>i<256. \<forall>j<T * C. flat m ! (i * (T * C) + j) =
                 ts ! ((i + 256 * (j div T)) * T + j mod T))"
proof -
  have "shape (flex_alloc ts) = [256, length ts div 256]"
    and "length (flat (flex_alloc ts)) = 256 * (length ts div 256)"
    by (simp_all add: flex_alloc_def np_zeros_def floor_div_256)
  then have sh: "shape (flex_alloc ts) = [256, T * C]"
    and len: "length (flat (flex_alloc ts)) = 256 * (T * C)"
    using assms(2) by simp_all
  have e: "flex_pack ts T = pack_cycles T ts (real C) 0 (flex_alloc ts)"
    using assms(1) noc_exact [OF assms] by (simp add: flex_pack_def)
  from pack_cycles_ok [OF assms(2) sh len, of 0] show ?thesis
    unfolding e by simp
qed


subsection \<open>Array indexing, reshape and transpose\<close>

lemma ravel_C_less: "list_all2 (<) is ns \<Longrightarrow> ravel_C ns is < prod_list ns"
proof (induction rule: list_all2_induct)
  case Nil
  show ?case by simp
next
  case (Cons i "is" n ns)
  have "Suc i * prod_list ns \<le> n * prod_list ns"
    using Cons.hyps(1) by (intro mult_le_mono1) simp
  with Cons.IH show ?case by simp
qed

lemma unravel_ravel_C: "list_all2 (<) is ns \<Longrightarrow> unravel_C ns (ravel_C ns is) = is"
proof (induction rule: list_all2_induct)
  case Nil
  show ?case by simp
next
  case (Cons i "is" n ns)
  from ravel_C_less [OF Cons.hyps(2)] Cons.IH show ?case by simp
qed

lemma reshape_F_item:
  assumes "reshape a dims F_order = Inr a'" and "list_all2 (<) is (shape a')"
  shows "item a' is = item a (unravel_F (shape a) (ravel_F (shape a') is))"
proof -
  from assms(1) obtain ns where
    a': "a' = \<lparr>shape = ns,
               flat = map (\<lambda>off. item a (unravel_F (shape a) (ravel_F ns (unravel_C ns off))))
                          [0..<prod_list ns]\<rparr>"
    by (auto simp add: reshape_def split: sum.splits if_splits)
  from assms(2) have v: "list_all2 (<) is ns" by (simp add: a')
  from ravel_C_less [OF v] unravel_ravel_C [OF v] show ?thesis
    by (simp add: a' item_def [of "\<lparr>shape = ns, flat = _\<rparr>"])
qed

lemma reshape_shape:
  assumes "infer_shape (length (flat a)) dims = Inr ns" and "prod_list ns = length (flat a)"
  shows "\<exists>a'. reshape a dims ord = Inr a' \<and> shape a' = ns \<and> length (flat a') = length (flat a)
             \<and> (ord = C_order \<longrightarrow> flat a' = flat a)"
  using assms by (cases ord) (simp_all add: reshape_def)

lemma transpose_nd_item:
  assumes "list_all2 (<) is (map (\<lambda>ax. shape a ! ax) axes)"
  shows "item (transpose_nd a axes) is = item a (map (\<lambda>d. is ! position d axes) [0..<length axes])"
  using ravel_C_less [OF assms] unravel_ravel_C [OF assms]
  by (simp add: transpose_nd_def Let_def item_def [of "\<lparr>shape = _, flat = _\<rparr>"])

lemma transpose_nd_shape:
  "shape (transpose_nd a axes) = map (\<lambda>ax. shape a ! ax) axes"
  "length (flat (transpose_nd a axes)) = prod_list (map (\<lambda>ax. shape a ! ax) axes)"
  by (simp_all add: transpose_nd_def Let_def)

lemma nmr_cycles_exact:
  assumes "0 < T" and "n = 256 * (T * C)"
  shows "nat \<lfloor>real n / real T / 256\<rfloor> = C"
proof -
  have "real n / real T / 256 = real C" using assms by simp
  then show ?thesis by simp
qed

lemma block_index:
  fixes i :: nat
  assumes "i < n" and "s < m"
  shows "i * m + s < n * m"
proof -
  have "Suc i * m \<le> n * m" using assms(1) by (intro mult_le_mono1) simp
  with assms(2) show ?thesis by simp
qed

lemma numpy_reshape_ok:
  assumes T: "0 < T" and len: "length ts = 256 * (T * C)"
  shows "\<exists>m. numpy_reshape ts T = Inr m \<and> shape m = [256, T * C]
           \<and> length (flat m) = 256 * (T * C)
           \<and> (\<forall>i<256. \<forall>k<C. \<forall>s<T. item m [i, k * T + s] = ts ! ((i + 256 * k) * T + s))"
proof -
  let ?a0 = "\<lparr>shape = [length ts], flat = ts\<rparr>"
  have nT: "int T \<noteq> - 1" by simp
  \<comment> \<open>first reshape\<close>
  have i1: "infer_shape (length (flat ?a0)) [int T, int (C * 256)] = Inr [T, C * 256]"
    by (simp add: infer_shape_def)
  from reshape_shape [OF i1, of F_order] len obtain a1 where
    r1: "reshape ?a0 [int T, int (C * 256)] F_order = Inr a1" and
    sh1: "shape a1 = [T, C * 256]" and l1: "length (flat a1) = 256 * (T * C)"
    by auto
  have it1: "item a1 [s, m] = ts ! (m * T + s)" if "s < T" "m < C * 256" for s m
  proof -
    have "unravel_F [length ts] (ravel_F [T, C * 256] [s, m]) = [m * T + s]"
      by (simp add: unravel_F_def ravel_F_def)
    with reshape_F_item [OF r1, of "[s, m]"] that show ?thesis
      by (simp add: sh1 item_def [of ?a0])
  qed
  \<comment> \<open>second reshape\<close>
  have i2: "infer_shape (length (flat a1)) [int T, 256, - 1] = Inr [T, 256, C]"
    using T by (simp add: infer_shape_def l1)
  from reshape_shape [OF i2, of F_order] l1 obtain a2 where
    r2: "reshape a1 [int T, 256, - 1] F_order = Inr a2" and
    sh2: "shape a2 = [T, 256, C]" and l2: "length (flat a2) = 256 * (T * C)"
    by auto
  have it2: "item a2 [s, i, k] = item a1 [s, k * 256 + i]" if "s < T" "i < 256" "k < C" for s i k
  proof -
    have e: "ravel_F [T, 256, C] [s, i, k] = ravel_C [C * 256, T] [k * 256 + i, s]"
      by (simp add: ravel_F_def algebra_simps)
    have v: "list_all2 (<) [k * 256 + i, s] [C * 256, T]"
      using that block_index [of k C i 256] by simp
    have "unravel_F [T, C * 256] (ravel_F [T, 256, C] [s, i, k]) = [s, k * 256 + i]"
      unfolding e unravel_F_def by (simp only: rev.simps append.simps unravel_ravel_C [OF v])
    with reshape_F_item [OF r2, of "[s, i, k]"] that show ?thesis
      by (simp add: sh2 sh1)
  qed
  \<comment> \<open>first transpose\<close>
  define a2t where "a2t = transpose_nd a2 [0, 2, 1]"
  have sh2t: "shape a2t = [T, C, 256]" by (simp add: a2t_def transpose_nd_shape sh2)
  have l2t: "length (flat a2t) = 256 * (T * C)" by (simp add: a2t_def transpose_nd_shape sh2)
  have it2t: "item a2t [s, k, i] = item a2 [s, i, k]" if "s < T" "i < 256" "k < C" for s i k
    unfolding a2t_def using transpose_nd_item [of "[s, k, i]" a2 "[0, 2, 1]"] that
    by (simp add: sh2 position_def upt_rec [of 0] upt_rec [of 1] upt_rec [of 2])
  \<comment> \<open>third reshape\<close>
  have i3: "infer_shape (length (flat a2t)) [- 1, 256] = Inr [T * C, 256]"
    by (simp add: infer_shape_def l2t)
  from reshape_shape [OF i3, of F_order] l2t obtain a3 where
    r3: "reshape a2t [- 1, 256] F_order = Inr a3" and
    sh3: "shape a3 = [T * C, 256]" and l3: "length (flat a3) = 256 * (T * C)"
    by auto
  have it3: "item a3 [k * T + s, i] = item a2t [s, k, i]" if "s < T" "i < 256" "k < C" for s i k
  proof -
    have e: "ravel_F [T * C, 256] [k * T + s, i] = ravel_C [256, C, T] [i, k, s]"
      by (simp add: ravel_F_def algebra_simps)
    have v: "list_all2 (<) [i, k, s] [256, C, T]" using that by simp
    have v': "list_all2 (<) [k * T + s, i] [T * C, 256]"
      using that block_index [of k C s T] by (simp add: mult.commute)
    have "unravel_F [T, C, 256] (ravel_F [T * C, 256] [k * T + s, i]) = [s, k, i]"
      unfolding e unravel_F_def by (simp only: rev.simps append.simps unravel_ravel_C [OF v])
    with reshape_F_item [OF r3, of "[k * T + s, i]"] v' show ?thesis
      by (simp add: sh3 sh2t)
  qed
  \<comment> \<open>last transpose\<close>
  define m where "m = transpose_nd a3 [1, 0]"
  have shm: "shape m = [256, T * C]" by (simp add: m_def transpose_nd_shape sh3)
  have lm: "length (flat m) = 256 * (T * C)" by (simp add: m_def transpose_nd_shape sh3)
  have itm: "item m [i, k * T + s] = item a3 [k * T + s, i]" if "s < T" "i < 256" "k < C" for s i k
    unfolding m_def using transpose_nd_item [of "[i, k * T + s]" a3 "[1, 0]"] that block_index [of k C s T]
    by (simp add: sh3 position_def upt_rec [of 0] upt_rec [of 1] mult.commute)
  have e: "numpy_reshape ts T = Inr m"
    unfolding numpy_reshape_def Let_def nmr_cycles_exact [OF T len] bind_err_def r1 r2
      r3 [unfolded a2t_def] sum.case m_def
    using T by simp
  have "item m [i, k * T + s] = ts ! ((i + 256 * k) * T + s)"
    if "s < T" "i < 256" "k < C" for s i k
    using that itm [OF that] it3 [OF that] it2t [OF that] it2 [OF that]
          it1 [of s "k * 256 + i"] block_index [of k C i 256]
    by (simp add: add.commute mult.commute)
  with e shm lm show ?thesis by blast
qed


subsection \<open>The three reshapes agree\<close>

lemma item_2d: "shape a = [r, c] \<Longrightarrow> item a [i, j] = flat a ! (i * c + j)"
  by (simp add: item_def)

lemma flex_pack_item:
  assumes T: "0 < T" and len: "length ts = 256 * (T * C)"
  shows "\<exists>m. flex_pack ts T = Some (Inr m) \<and> shape m = [256, T * C]
           \<and> length (flat m) = 256 * (T * C)
           \<and> (\<forall>i<256. \<forall>k<C. \<forall>s<T. item m [i, k * T + s] = ts ! ((i + 256 * k) * T + s))"
proof -
  from flex_pack_ok [OF T len] obtain m where
    e: "flex_pack ts T = Some (Inr m)" and sh: "shape m = [256, T * C]" and
    l: "length (flat m) = 256 * (T * C)" and
    n: "\<And>i j. i < 256 \<Longrightarrow> j < T * C \<Longrightarrow>
          flat m ! (i * (T * C) + j) = ts ! ((i + 256 * (j div T)) * T + j mod T)"
    by auto
  have "item m [i, k * T + s] = ts ! ((i + 256 * k) * T + s)"
    if "i < 256" "k < C" "s < T" for i k s
  proof -
    have j: "k * T + s < T * C" using block_index [OF that(2) that(3)] by (simp add: mult.commute)
    have "(k * T + s) div T = k" "(k * T + s) mod T = s" using that(3) by simp_all
    with n [OF that(1) j] show ?thesis by (simp add: item_2d [OF sh])
  qed
  with e sh l show ?thesis by blast
qed

lemma matrix_eqI:
  fixes a b :: "'a ndarray"
  assumes "shape a = [256, T * C]" and "shape b = [256, T * C]"
      and "length (flat a) = 256 * (T * C)" and "length (flat b) = 256 * (T * C)"
      and it: "\<And>i k s. i < 256 \<Longrightarrow> k < C \<Longrightarrow> s < T \<Longrightarrow> item a [i, k * T + s] = item b [i, k * T + s]"
  shows "a = b"
proof -
  have "flat a = flat b"
  proof (rule nth_equalityI)
    show "length (flat a) = length (flat b)" using assms(3,4) by simp
  next
    fix off assume "off < length (flat a)"
    then have off: "off < 256 * (T * C)" using assms(3) by simp
    then have pos: "0 < T * C" by (cases "T * C") simp_all
    then have T: "0 < T" by simp
    define i where "i = off div (T * C)"
    define j where "j = off mod (T * C)"
    define k where "k = j div T"
    define s where "s = j mod T"
    have i: "i < 256" unfolding i_def using off pos
      by (simp add: less_mult_imp_div_less mult.commute)
    have j: "j < T * C" unfolding j_def using pos by simp
    have k: "k < C" unfolding k_def using j T by (simp add: less_mult_imp_div_less mult.commute)
    have s: "s < T" unfolding s_def using T by simp
    have "off = i * (T * C) + j"
      unfolding i_def j_def by (rule div_mult_mod_eq [symmetric])
    moreover have "j = k * T + s"
      unfolding k_def s_def by (rule div_mult_mod_eq [symmetric])
    ultimately have d: "off = i * (T * C) + (k * T + s)" by simp
    from it [OF i k s] show "flat a ! off = flat b ! off"
      unfolding d by (simp add: item_2d [OF assms(1)] item_2d [OF assms(2)])
  qed
  with assms(1,2) show ?thesis by simp
qed

lemma flex_numpy_agree:
  assumes T: "0 < T" and len: "length ts = 256 * (T * C)"
  shows "flex_pack ts T = Some (numpy_reshape ts T)"
proof -
  from flex_pack_item [OF T len] obtain a where
    a: "flex_pack ts T = Some (Inr a)" "shape a = [256, T * C]" "length (flat a) = 256 * (T * C)"
       "\<And>i k s. i < 256 \<Longrightarrow> k < C \<Longrightarrow> s < T \<Longrightarrow> item a [i, k * T + s] = ts ! ((i + 256 * k) * T + s)"
    by auto
  from numpy_reshape_ok [OF T len] obtain b where
    b: "numpy_reshape ts T = Inr b" "shape b = [256, T * C]" "length (flat b) = 256 * (T * C)"
       "\<And>i k s. i < 256 \<Longrightarrow> k < C \<Longrightarrow> s < T \<Longrightarrow> item b [i, k * T + s] = ts ! ((i + 256 * k) * T + s)"
    by auto
  have "a = b"
    by (rule matrix_eqI [OF a(2) b(2) a(3) b(3)]) (simp add: a(4) b(4))
  with a(1) b(1) show ?thesis by simp
qed

lemma infer_shape_nat: "infer_shape sz (map int ns) = Inr ns"
proof -
  have "- 1 \<notin> set (map int ns)" by auto
  moreover have "map nat (map int ns) = ns" by (simp add: map_idI)
  ultimately show ?thesis unfolding infer_shape_def Let_def by (simp only: if_False)
qed

lemma calib_reshape_ok:
  assumes T: "0 < T" and len: "length ds = 256 * (T * C)"
  shows "\<exists>d. calib_reshape ds T = Inr d \<and> shape d = [256, T * C]
           \<and> length (flat d) = 256 * (T * C)
           \<and> (\<forall>i<256. \<forall>k<C. \<forall>s<T. item d [i, k * T + s] = ds ! ((i + 256 * k) * T + s))"
proof -
  let ?a0 = "\<lparr>shape = [length ds], flat = ds\<rparr>"
  have i1: "infer_shape (length (flat ?a0)) [int C, 256, int T] = Inr [C, 256, T]"
    using infer_shape_nat [of _ "[C, 256, T]"] by simp
  have p1: "prod_list [C, 256, T] = length (flat ?a0)" using len by simp
  from reshape_shape [OF i1 p1, of C_order] len obtain a1 where
    r1: "reshape ?a0 [int C, 256, int T] C_order = Inr a1" and
    sh1: "shape a1 = [C, 256, T]" and l1: "length (flat a1) = 256 * (T * C)" and
    f1: "flat a1 = ds"
    by auto
  have it1: "item a1 [k, i, s] = ds ! ((i + 256 * k) * T + s)" for k i s
    by (simp add: item_def sh1 f1 algebra_simps)
  define a1t where "a1t = transpose_nd a1 [1, 0, 2]"
  have sh1t: "shape a1t = [256, C, T]" by (simp add: a1t_def transpose_nd_shape sh1)
  have l1t: "length (flat a1t) = 256 * (T * C)"
    by (simp add: a1t_def transpose_nd_shape sh1 mult.commute)
  have it1t: "item a1t [i, k, s] = item a1 [k, i, s]" if "i < 256" "k < C" "s < T" for s i k
    unfolding a1t_def using transpose_nd_item [of "[i, k, s]" a1 "[1, 0, 2]"] that
    by (simp add: sh1 position_def upt_rec [of 0] upt_rec [of 1] upt_rec [of 2])
  have i2: "infer_shape (length (flat a1t)) [256, int (T * C)] = Inr [256, T * C]"
    using infer_shape_nat [of _ "[256, T * C]"] by simp
  have p2: "prod_list [256, T * C] = length (flat a1t)" using l1t by simp
  from reshape_shape [OF i2 p2, of C_order] l1t obtain d where
    r2: "reshape a1t [256, int (T * C)] C_order = Inr d" and
    shd: "shape d = [256, T * C]" and ld: "length (flat d) = 256 * (T * C)" and
    fd: "flat d = flat a1t"
    by auto
  have itd: "item d [i, k * T + s] = item a1t [i, k, s]" for i k s
    by (simp add: item_def shd sh1t fd algebra_simps)
  have e: "calib_reshape ds T = Inr d"
    unfolding calib_reshape_def Let_def nmr_cycles_exact [OF T len] bind_err_def r1
      r2 [unfolded a1t_def] sum.case
    using T by simp
  have "item d [i, k * T + s] = ds ! ((i + 256 * k) * T + s)"
    if "i < 256" "k < C" "s < T" for i k s
    using itd [of i k s] it1t [OF that] it1 [of k i s] by simp
  with e shd ld show ?thesis by blast
qed


lemma dvd_cycles:
  fixes T n :: nat
  assumes "0 < T" and "256 * T dvd n"
  shows "n = 256 * (T * (n div (256 * T)))"
proof -
  from assms(2) have "n = 256 * T * (n div (256 * T))" by simp
  then show ?thesis by (simp only: mult.assoc)
qed

text \<open>
  C2. For a decoded sequence whose length is a multiple of \<open>256 * T\<close>, with \<open>T > 0\<close>, the
  packing loops of \<^verbatim>\<open>unpack_binary_flex\<close> and the reshape of \<^verbatim>\<open>unpack_calib\<close> both return a
  matrix of 256 rows and \<open>T * C\<close> columns, \<open>C\<close> being the length divided by \<open>256 * T\<close>, in
  which row \<open>i\<close>, column \<open>k * T + s\<close> holds the value at flat offset \<open>(i + 256 * k) * T + s\<close>,
  for every pixel \<open>i < 256\<close>, cycle \<open>k < C\<close> and slot \<open>s < T\<close>.
\<close>

theorem C2_index_mapping:
  assumes "0 < T" and "256 * T dvd length ts" and "length ds = length ts"
      and "i < 256" and "k < length ts div (256 * T)" and "s < T"
  shows "\<exists>m d. flex_pack ts T = Some (Inr m) \<and> calib_reshape ds T = Inr d
             \<and> shape m = [256, T * (length ts div (256 * T))]
             \<and> shape d = [256, T * (length ts div (256 * T))]
             \<and> item m [i, k * T + s] = ts ! ((i + 256 * k) * T + s)
             \<and> item d [i, k * T + s] = ds ! ((i + 256 * k) * T + s)"
proof -
  let ?C = "length ts div (256 * T)"
  have len: "length ts = 256 * (T * ?C)" by (rule dvd_cycles [OF assms(1,2)])
  then have len': "length ds = 256 * (T * ?C)" using assms(3) by simp
  from flex_pack_item [OF assms(1) len] assms(4-6) obtain m where
    "flex_pack ts T = Some (Inr m)" "shape m = [256, T * ?C]"
    "item m [i, k * T + s] = ts ! ((i + 256 * k) * T + s)"
    by blast
  moreover from calib_reshape_ok [OF assms(1) len'] assms(4-6) obtain d where
    "calib_reshape ds T = Inr d" "shape d = [256, T * ?C]"
    "item d [i, k * T + s] = ds ! ((i + 256 * k) * T + s)"
    by blast
  ultimately show ?thesis by blast
qed

theorem C2_index_mapping_witness:
  "(0::nat) < 2 \<and> 256 * 2 dvd length (map real [0..<1024])
   \<and> length (map int [0..<1024]) = length (map real [0..<1024])
   \<and> (3::nat) < 256 \<and> 1 < length (map real [0..<1024]) div (256 * 2) \<and> (1::nat) < 2
   \<and> (\<exists>m d. flex_pack (map real [0..<1024]) 2 = Some (Inr m)
           \<and> calib_reshape (map int [0..<1024]) 2 = Inr d
           \<and> shape m = [256, 4] \<and> shape d = [256, 4]
           \<and> item m [3, 3] = 519 \<and> item d [3, 3] = 519)"
proof -
  have h1: "(0::nat) < 2" by simp
  have h2: "256 * 2 dvd length (map real [0..<1024])" by simp
  have h3: "length (map int [0..<1024]) = length (map real [0..<1024])" by simp
  have h4: "(3::nat) < 256" by simp
  have h5: "1 < length (map real [0..<1024]) div (256 * 2)" by simp
  have h6: "(1::nat) < 2" by simp
  from C2_index_mapping [OF h1 h2 h3 h4 h5 h6] obtain m d where
    "flex_pack (map real [0..<1024]) 2 = Some (Inr m)"
    "calib_reshape (map int [0..<1024]) 2 = Inr d"
    "shape m = [256, 2 * (length (map real [0..<1024]) div (256 * 2))]"
    "shape d = [256, 2 * (length (map real [0..<1024]) div (256 * 2))]"
    "item m [3, 1 * 2 + 1] = map real [0..<1024] ! ((3 + 256 * 1) * 2 + 1)"
    "item d [3, 1 * 2 + 1] = map int [0..<1024] ! ((3 + 256 * 1) * 2 + 1)"
    by blast
  then have "flex_pack (map real [0..<1024]) 2 = Some (Inr m)
           \<and> calib_reshape (map int [0..<1024]) 2 = Inr d
           \<and> shape m = [256, 4] \<and> shape d = [256, 4]
           \<and> item m [3, 3] = 519 \<and> item d [3, 3] = 519"
    by simp
  with h1 h2 h3 h4 h5 h6 show ?thesis by blast
qed

text \<open>
  C4. For a file of whole packets whose packet count is a multiple of \<open>256 * T\<close>,
  \<^verbatim>\<open>unpack_binary_flex\<close> returns, and returns exactly what \<^verbatim>\<open>unpack_numpy\<close> returns: the same
  shape and the same elements; for \<open>T > 0\<close> that result is a matrix.
\<close>

theorem C4_flex_equals_numpy:
  assumes "4 dvd length file" and "256 * T dvd length file div 4"
  shows "unpack_binary_flex file T = Some (unpack_numpy file T)
         \<and> (0 < T \<longrightarrow> (\<exists>m. unpack_numpy file T = Inr m))"
proof (cases "T = 0")
  case True
  with assms(1) show ?thesis
    by (simp add: unpack_binary_flex_eq unpack_numpy_eq flex_pack_def numpy_reshape_def)
next
  case False
  then have T: "0 < T" by simp
  let ?ts = "map spec_timestamp (np_fromfile file)"
  have "256 * T dvd length ?ts" using assms(2) by (simp add: np_fromfile_length)
  from dvd_cycles [OF T this] have len: "length ?ts = 256 * (T * (length ?ts div (256 * T)))" .
  from flex_numpy_agree [OF T len] numpy_reshape_ok [OF T len] assms(1)
  show ?thesis by (auto simp add: unpack_binary_flex_eq unpack_numpy_eq)
qed

theorem C4_flex_equals_numpy_witness:
  "4 dvd length (replicate 1024 (0::byte)) \<and> 256 * 1 dvd length (replicate 1024 (0::byte)) div 4
   \<and> (0::nat) < 1
   \<and> unpack_binary_flex (replicate 1024 0) 1 = Some (unpack_numpy (replicate 1024 0) 1)
   \<and> (\<exists>m. unpack_numpy (replicate 1024 0) 1 = Inr m)"
proof -
  have h1: "4 dvd length (replicate 1024 (0::byte))" by simp
  have h2: "256 * 1 dvd length (replicate 1024 (0::byte)) div 4" by simp
  from C4_flex_equals_numpy [OF h1 h2] h1 h2 show ?thesis by simp
qed

subsection \<open>Packet counts that are not a multiple of \<open>256 * T\<close>\<close>

lemma pack_cycles_returns:
  assumes "pack_cycles T ts noc k dm = Some r"
  shows "\<forall>m'. r = Inr m' \<longrightarrow> (\<exists>k'. k \<le> k' \<and> real k' = noc)"
proof -
  show ?thesis
  proof (rule pack_cycles.raw_induct
      [where P = "\<lambda>T ts noc k dm r. \<forall>m'. r = Inr m' \<longrightarrow> (\<exists>k'. k \<le> k' \<and> real k' = noc)",
       OF _ assms])
    fix f T ts noc k dm r
    assume IH: "\<And>T ts noc k dm r. f T ts noc k dm = Some r \<Longrightarrow>
                  \<forall>m. r = Inr m \<longrightarrow> (\<exists>k'. k \<le> k' \<and> real k' = noc)"
      and step: "(if real k \<noteq> noc
                  then case pack_pixels T ts k 0 dm of
                         Inl e \<Rightarrow> Some (Inl e)
                       | Inr dm' \<Rightarrow> f T ts noc (k + 1) dm'
                  else Some (Inr dm)) = Some r"
    show "\<forall>m. r = Inr m \<longrightarrow> (\<exists>k'. k \<le> k' \<and> real k' = noc)"
    proof (cases "real k \<noteq> noc")
      case False
      then show ?thesis by auto
    next
      case True
      show ?thesis
      proof (intro allI impI)
        fix m assume r: "r = Inr m"
        with step True obtain dm' where "f T ts noc (k + 1) dm' = Some (Inr m)"
          by (auto split: sum.splits)
        from IH [OF this] obtain k' where "k + 1 \<le> k'" "real k' = noc" by blast
        then show "\<exists>k'. k \<le> k' \<and> real k' = noc" by (intro exI [of _ k']) simp
      qed
    qed
  qed
qed

lemma noc_not_integral:
  assumes "0 < T" and "\<not> 256 * T dvd n"
  shows "real k \<noteq> real n / real T / 256"
proof
  assume "real k = real n / real T / 256"
  with assms(1) have "real n = real (256 * T * k)" by (simp add: field_simps)
  then have "n = 256 * T * k" by (simp only: of_nat_eq_iff)
  with assms(2) show False by simp
qed

lemma numpy_reshape_bad:
  assumes "0 < T" and "\<not> 256 * T dvd length ts"
  shows "numpy_reshape ts T = Inl ValueError"
proof -
  define q where "q = nat \<lfloor>real (length ts) / real T / 256\<rfloor>"
  have "prod_list [T, q * 256] \<noteq> length ts"
  proof
    assume "prod_list [T, q * 256] = length ts"
    then have "length ts = 256 * T * q" by simp
    with assms(2) show False by simp
  qed
  moreover have "infer_shape (length ts) [int T, int (q * 256)] = Inr [T, q * 256]"
    using infer_shape_nat [of _ "[T, q * 256]"] by simp
  ultimately have "reshape \<lparr>shape = [length ts], flat = ts\<rparr> [int T, int (q * 256)] F_order
                    = Inl ValueError"
    by (simp add: reshape_def)
  then show ?thesis
    unfolding numpy_reshape_def Let_def q_def [symmetric] bind_err_def using assms(1) by simp
qed

lemma calib_reshape_bad:
  assumes "0 < T" and "\<not> 256 * T dvd length ds"
  shows "calib_reshape ds T = Inl ValueError"
proof -
  define q where "q = nat \<lfloor>real (length ds) / real T / 256\<rfloor>"
  have "prod_list [q, 256, T] \<noteq> length ds"
  proof
    assume "prod_list [q, 256, T] = length ds"
    then have "length ds = 256 * T * q" by (simp add: mult_ac)
    with assms(2) show False by simp
  qed
  moreover have "infer_shape (length ds) [int q, 256, int T] = Inr [q, 256, T]"
    using infer_shape_nat [of _ "[q, 256, T]"] by simp
  ultimately have "reshape \<lparr>shape = [length ds], flat = ds\<rparr> [int q, 256, int T] C_order
                    = Inl ValueError"
    by (simp add: reshape_def)
  then show ?thesis
    unfolding calib_reshape_def Let_def q_def [symmetric] bind_err_def using assms(1) by simp
qed

text \<open>With one slot per cycle and fewer than 256 values, no assignment changes the empty matrix.\<close>

lemma pack_pixels_empty:
  assumes "shape dm = [256, 0]" and "flat dm = []"
  shows "pack_pixels 1 ts k i dm = Inr dm"
  using assms
proof (induction "1::nat" ts k i dm rule: pack_pixels.induct)
  case (1 ts k i dm)
  show ?case
  proof (cases "i < 256")
    case False
    then show ?thesis by (subst pack_pixels.simps) simp
  next
    case True
    define src where "src = py_slice ts ((i + 256 * k) * 1) ((i + 256 * k) * 1 + 1)"
    have "length src \<le> 1" by (simp add: src_def py_slice_def)
    then consider "src = []" | "length src = 1" by (cases src) auto
    then have "set_row_slice dm i (k * 1) (k * 1 + 1) src = Inr dm"
      using "1.prems" by cases (simp_all add: set_row_slice_def Let_def)
    then have a: "set_row_slice dm i (k * 1) (k * 1 + 1)
               (py_slice ts ((i + 256 * k) * 1) ((i + 256 * k) * 1 + 1)) = Inr dm"
      unfolding src_def .
    from "1.hyps" [OF True a "1.prems"] a True show ?thesis
      by (subst pack_pixels.simps) simp
  qed
qed

lemma pack_cycles_diverges:
  assumes "pack_cycles T ts noc k dm = Some r"
  shows "\<not> (T = 1 \<and> (\<forall>k'. real k' \<noteq> noc) \<and> shape dm = [256, 0] \<and> flat dm = [])"
proof (rule pack_cycles.raw_induct
    [where P = "\<lambda>T ts noc k dm r.
                  \<not> (T = 1 \<and> (\<forall>k'. real k' \<noteq> noc) \<and> shape dm = [256, 0] \<and> flat dm = [])",
     OF _ assms])
  fix f T ts noc k dm r
  assume IH: "\<And>T ts noc k dm r. f T ts noc k dm = Some r \<Longrightarrow>
                \<not> (T = 1 \<and> (\<forall>k'. real k' \<noteq> noc) \<and> shape dm = [256, 0] \<and> flat dm = [])"
    and step: "(if real k \<noteq> noc
                then case pack_pixels T ts k 0 dm of
                       Inl e \<Rightarrow> Some (Inl e)
                     | Inr dm' \<Rightarrow> f T ts noc (k + 1) dm'
                else Some (Inr dm)) = Some r"
  show "\<not> (T = 1 \<and> (\<forall>k'. real k' \<noteq> noc) \<and> shape dm = [256, 0] \<and> flat dm = [])"
  proof
    assume inv: "T = 1 \<and> (\<forall>k'. real k' \<noteq> noc) \<and> shape dm = [256, 0] \<and> flat dm = []"
    then have T1: "T = 1" by simp
    have "pack_pixels T ts k 0 dm = Inr dm"
      unfolding T1 using inv by (intro pack_pixels_empty) simp_all
    with step inv have "f T ts noc (k + 1) dm = Some r" by simp
    from IH [OF this] inv show False by blast
  qed
qed

lemma flex_pack_hangs:
  assumes "0 < length ts" and "length ts < 256"
  shows "flex_pack ts 1 = None"
proof (cases "flex_pack ts 1")
  case None
  then show ?thesis .
next
  case (Some r)
  have sh: "shape (flex_alloc ts) = [256, 0]" and fl: "flat (flex_alloc ts) = []"
    using assms(2) by (simp_all add: flex_alloc_def np_zeros_def floor_div_256)
  have nd: "\<not> 256 * 1 dvd length ts"
  proof
    assume "256 * 1 dvd length ts"
    then have "256 * 1 \<le> length ts" using assms(1) by (intro dvd_imp_le)
    with assms(2) show False by simp
  qed
  have ni: "\<forall>k'. real k' \<noteq> real (length ts) / real (1::nat) / 256"
    using noc_not_integral [OF _ nd] by simp
  from Some have
    "pack_cycles 1 ts (real (length ts) / real (1::nat) / 256) 0 (flex_alloc ts) = Some r"
    by (simp add: flex_pack_def)
  from pack_cycles_diverges [OF this] ni sh fl show ?thesis by simp
qed


subsection \<open>The calibration loop\<close>

lemma calib_row_ok:
  assumes sh: "shape m = [256, c]" and len: "length (flat m) = 256 * c" and i: "i < 256"
  shows "shape (calib_row cal m i) = [256, c]"
    and "length (flat (calib_row cal m i)) = 256 * c"
    and "\<And>i' j. (i'::nat) < 256 \<Longrightarrow> j < c \<Longrightarrow>
           flat (calib_row cal m i) ! (i' * c + j) =
             (if i' = i then calib_element cal i (flat m ! (i' * c + j)) else flat m ! (i' * c + j))"
proof -
  let ?vs = "map (calib_element cal i) (take c (drop (i * c) (flat m)))"
  have fl: "flat (calib_row cal m i) = take (i * c) (flat m) @ ?vs @ drop (i * c + c) (flat m)"
    by (simp add: calib_row_def sh)
  have b: "i * c + c \<le> length (flat m)" using row_offset_mono [OF i, of c] len by linarith
  have pq: "i * c \<le> i * c + c" by simp
  have sl: "length ?vs = i * c + c - i * c" using b by simp
  show "shape (calib_row cal m i) = [256, c]" by (simp add: calib_row_def sh)
  show "length (flat (calib_row cal m i)) = 256 * c"
    unfolding fl using splice_length [OF pq b sl] len by simp
  fix i' j :: nat assume i': "i' < 256" and j: "j < c"
  have off: "i' * c + j < length (flat m)"
    using row_offset_mono [OF i', of c] j len by linarith
  have s: "flat (calib_row cal m i) ! (i' * c + j) =
        (if i * c \<le> i' * c + j \<and> i' * c + j < i * c + c
         then ?vs ! (i' * c + j - i * c) else flat m ! (i' * c + j))"
    unfolding fl using splice_nth [OF pq b sl off] by simp
  consider "i' < i" | "i' = i" | "i < i'" by linarith
  then show "flat (calib_row cal m i) ! (i' * c + j) =
             (if i' = i then calib_element cal i (flat m ! (i' * c + j)) else flat m ! (i' * c + j))"
  proof cases
    case 1
    from row_offset_mono [OF 1, of c] j have "\<not> i * c \<le> i' * c + j" by linarith
    with 1 s show ?thesis by simp
  next
    case 2
    have "?vs ! j = calib_element cal i (flat m ! (i * c + j))"
      using j b by simp
    with 2 s j show ?thesis by simp
  next
    case 3
    from row_offset_mono [OF 3, of c] have "\<not> i' * c + j < i * c + c" by linarith
    with 3 s show ?thesis by simp
  qed
qed

lemma calib_rows_upto:
  assumes sh: "shape m = [256, c]" and len: "length (flat m) = 256 * c" and n: "n \<le> 256"
  shows "shape (foldl (calib_row cal) m [0..<n]) = [256, c]
       \<and> length (flat (foldl (calib_row cal) m [0..<n])) = 256 * c
       \<and> (\<forall>i<256. \<forall>j<c. flat (foldl (calib_row cal) m [0..<n]) ! (i * c + j) =
             (if i < n then calib_element cal i (flat m ! (i * c + j)) else flat m ! (i * c + j)))"
  using n
proof (induction n)
  case 0
  show ?case using sh len by simp
next
  case (Suc n)
  let ?r = "foldl (calib_row cal) m [0..<n]"
  from Suc have IH: "shape ?r = [256, c]" "length (flat ?r) = 256 * c"
    "\<And>i j. i < 256 \<Longrightarrow> j < c \<Longrightarrow> flat ?r ! (i * c + j) =
             (if i < n then calib_element cal i (flat m ! (i * c + j)) else flat m ! (i * c + j))"
    by simp_all
  have n: "n < 256" using Suc.prems by simp
  have e: "foldl (calib_row cal) m [0..<Suc n] = calib_row cal ?r n" by simp
  show ?case
    unfolding e
    using calib_row_ok(1) [OF IH(1,2) n] calib_row_ok(2) [OF IH(1,2) n]
          calib_row_ok(3) [OF IH(1,2) n] IH(3)
    by (auto simp add: less_Suc_eq)
qed

lemma calib_loop_ok:
  assumes sh: "shape m = [256, c]" and len: "length (flat m) = 256 * c"
  shows "shape (calib_loop cal m) = [256, c]"
    and "length (flat (calib_loop cal m)) = 256 * c"
    and "\<And>i j. (i::nat) < 256 \<Longrightarrow> j < c \<Longrightarrow>
           item (calib_loop cal m) [i, j] = calib_element cal i (item m [i, j])"
  using calib_rows_upto [OF sh len, of 256 cal] sh
  by (simp_all add: calib_loop_def item_def)

lemma unpack_calib_ok:
  assumes T: "0 < T" and len: "length (np_fromfile file) = 256 * (T * C)"
  shows "\<exists>d. calib_reshape (calib_decode (np_fromfile file)) T = Inr d
           \<and> shape d = [256, T * C] \<and> length (flat d) = 256 * (T * C)
           \<and> (\<forall>i<256. \<forall>k<C. \<forall>s<T. item d [i, k * T + s] =
                 calib_decode (np_fromfile file) ! ((i + 256 * k) * T + s))
           \<and> unpack_calib file (Inr cal) T = Inr (calib_loop cal d)
           \<and> unpack_calib file (Inl FileNotFoundError) T = Inl SystemExit"
proof -
  have "length (calib_decode (np_fromfile file)) = 256 * (T * C)"
    using len by (simp add: calib_decode_def)
  from calib_reshape_ok [OF T this] show ?thesis
    by (auto simp add: unpack_calib_def bind_err_def)
qed

lemma count_list_replicate: "count_list (replicate n x) x = n"
  by (induction n) simp_all

lemma count_list_mono:
  assumes "length xs = length ys" and "\<forall>n<length xs. xs ! n = a \<longrightarrow> ys ! n = a"
  shows "count_list xs a \<le> count_list ys a"
  using assms
proof (induction xs ys rule: list_induct2)
  case Nil
  show ?case by simp
next
  case (Cons x xs y ys)
  from Cons.prems have "\<forall>n<length xs. xs ! n = a \<longrightarrow> ys ! n = a" by force
  with Cons.IH have "count_list xs a \<le> count_list ys a" by simp
  moreover from Cons.prems have "x = a \<longrightarrow> y = a" by force
  ultimately show ?case by auto
qed

lemma count_list_same:
  assumes "length xs = length ys" and "\<forall>n<length xs. (xs ! n = a) = (ys ! n = a)"
  shows "count_list xs a = count_list ys a"
proof (rule antisym)
  show "count_list xs a \<le> count_list ys a" using assms by (intro count_list_mono) simp_all
  show "count_list ys a \<le> count_list xs a" using assms by (intro count_list_mono) simp_all
qed

lemma to_longlong_nonneg: "0 \<le> x \<Longrightarrow> 0 \<le> to_longlong x"
  by (simp add: to_longlong_def)

lemma pow2_pos: "0 < pow2 e"
  by (simp add: pow2_def)

lemma round_half_even_cases:
  "round_half_even q = \<lfloor>q\<rfloor> \<or> round_half_even q = \<lfloor>q\<rfloor> + 1"
  by (simp add: round_half_even_def)

lemma round_half_even_nonneg: "0 \<le> q \<Longrightarrow> 0 \<le> round_half_even q"
  using round_half_even_cases [of q] by (auto simp add: zero_le_floor)

lemma round_half_even_abs: "\<bar>real_of_int (round_half_even q)\<bar> \<le> 2 * \<bar>q\<bar>"
proof -
  define f where "f = \<lfloor>q\<rfloor>"
  have b: "real_of_int f \<le> q" "q < real_of_int f + 1" unfolding f_def by linarith+
  have r: "round_half_even q =
     (if q - real_of_int f < 1 / 2 then f
      else if 1 / 2 < q - real_of_int f then f + 1
      else if even f then f else f + 1)"
    unfolding f_def round_half_even_def ..
  show ?thesis
  proof (cases "0 \<le> f")
    case True
    then have "0 \<le> real_of_int f" by simp
    with b show ?thesis unfolding r by (auto split: if_splits) 
  next
    case False
    then have "f \<le> - 1" by simp
    then have "real_of_int f \<le> - 1" by linarith
    with b show ?thesis unfolding r by (auto split: if_splits)
  qed
qed

lemma f64_nonneg:
  assumes "0 \<le> x"
  shows "0 \<le> f64 x"
proof (cases "x = 0")
  case True
  then show ?thesis by (simp add: f64_def)
next
  case False
  define u where "u = pow2 (max (f64_exponent x) (- 1022) - 52)"
  have u: "0 < u" unfolding u_def by (rule pow2_pos)
  have "0 \<le> x / u" using assms u by simp
  then have "0 \<le> round_half_even (x / u)" by (rule round_half_even_nonneg)
  then have "0 \<le> real_of_int (round_half_even (x / u)) * u" using u by simp
  then show ?thesis using False by (simp add: f64_def Let_def u_def)
qed

lemma f64_abs_le: "\<bar>f64 x\<bar> \<le> 2 * \<bar>x\<bar>"
proof (cases "x = 0")
  case True
  then show ?thesis by (simp add: f64_def)
next
  case False
  define u where "u = pow2 (max (f64_exponent x) (- 1022) - 52)"
  have u: "0 < u" unfolding u_def by (rule pow2_pos)
  have "\<bar>f64 x\<bar> = \<bar>real_of_int (round_half_even (x / u))\<bar> * u"
    using False u by (simp add: f64_def Let_def u_def abs_mult)
  also have "\<dots> \<le> 2 * \<bar>x / u\<bar> * u"
    using round_half_even_abs [of "x / u"] u by (intro mult_right_mono) simp_all
  also have "\<dots> = 2 * \<bar>x\<bar>" using u by (simp add: abs_mult)
  finally show ?thesis .
qed

lemma f64_exponent_normal:
  assumes "2 ^ n \<le> \<bar>x\<bar>" and "\<bar>x\<bar> < 2 ^ Suc n"
  shows "f64_exponent x = int n"
proof -
  have one: "1 \<le> \<bar>x\<bar>" using assms(1) one_le_power [of "2::real" n] by linarith
  define m where "m = nat \<lfloor>\<bar>x\<bar>\<rfloor>"
  have "(2::int) ^ n \<le> \<lfloor>\<bar>x\<bar>\<rfloor>" using assms(1) by (simp add: le_floor_iff)
  then have lo: "2 ^ n \<le> m" unfolding m_def by (simp add: le_nat_iff)
  have "\<lfloor>\<bar>x\<bar>\<rfloor> < (2::int) ^ Suc n" using assms(2) by (simp add: floor_less_iff)
  then have hi: "m < 2 ^ Suc n" unfolding m_def using one by (simp add: nat_less_iff)
  have "floorlog 2 m \<le> Suc n" using hi by (intro floorlog_leI) simp_all
  moreover have "Suc n \<le> floorlog 2 m" using lo by (intro floorlog_ge_SucI) simp_all
  ultimately have "floorlog 2 m = Suc n" by simp
  then show ?thesis using one by (simp add: f64_exponent_def m_def)
qed

lemma f64_normal:
  assumes "2 ^ n \<le> \<bar>x\<bar>" and "\<bar>x\<bar> < 2 ^ Suc n"
  shows "f64 x = real_of_int (round_half_even (x / pow2 (int n - 52))) * pow2 (int n - 52)"
proof -
  have "(0::real) < 2 ^ n" by simp
  with assms(1) have "0 < \<bar>x\<bar>" by linarith
  then have "x \<noteq> 0" by simp
  then show ?thesis
    by (simp add: f64_def Let_def f64_exponent_normal [OF assms] max_def)
qed

lemma f64_17857: "f64 (17857 / 1000) = 628287332390273 / 35184372088832"
  by (subst f64_normal [of 4]) (simp_all add: pow2_def round_half_even_def)

lemma calib_value_nonneg:
  assumes "0 \<le> v" and "\<forall>b<140. 0 \<le> cal i b"
  shows "0 \<le> calib_value cal i v"
proof -
  have "v mod 140 \<le> v" using assms(1) by (simp add: zmod_le_nonneg_dividend)
  then have "0 \<le> real_of_int (v - v mod 140)" by simp
  then have y: "0 \<le> f64 (real_of_int (v - v mod 140))" by (rule f64_nonneg)
  have c: "0 \<le> f64 (17857 / 1000)" by (rule f64_nonneg) simp
  from y c have "0 \<le> f64 (real_of_int (v - v mod 140)) * f64 (17857 / 1000)"
    by (rule mult_nonneg_nonneg)
  then have p: "0 \<le> f64 (f64 (real_of_int (v - v mod 140)) * f64 (17857 / 1000))"
    by (rule f64_nonneg)
  have "nat (v mod 140) < 140" by simp
  with assms(2) have "0 \<le> cal i (nat (v mod 140))" by blast
  with p have "0 \<le> f64 (f64 (real_of_int (v - v mod 140)) * f64 (17857 / 1000))
                   + cal i (nat (v mod 140))"
    by (rule add_nonneg_nonneg)
  then show ?thesis unfolding calib_value_def by (rule f64_nonneg)
qed


lemma calib_decode_range:
  assumes "n < length ws"
  shows "- 1 \<le> calib_decode ws ! n" and "calib_decode ws ! n < 268435456"
proof -
  define u where "u = uint (ws ! n AND 0xFFFFFFF)"
  have "u \<le> uint (0xFFFFFFF :: packet)"
    unfolding u_def by (rule word_and_le1 [THEN word_le_def [THEN iffD1]])
  then have hi: "u < 268435456" by simp
  have lo: "- 1 \<le> u" using uint_ge_0 [of "ws ! n AND 0xFFFFFFF"] unfolding u_def by linarith
  have e: "calib_decode ws ! n = (if ws ! n < 0x80000000 then - 1 else u)"
    using assms by (simp add: calib_decode_def u_def)
  show "- 1 \<le> calib_decode ws ! n" unfolding e using lo by simp
  show "calib_decode ws ! n < 268435456" unfolding e using hi by simp
qed

lemma to_longlong_range:
  assumes "\<bar>x\<bar> < 2 ^ 63"
  shows "- (2 ^ 63) < to_longlong x" and "to_longlong x < 2 ^ 63"
proof -
  have "real_of_int \<lfloor>x\<rfloor> \<le> x" "x \<le> real_of_int \<lceil>x\<rceil>" by simp_all
  have a: "0 \<le> x \<Longrightarrow> \<lfloor>x\<rfloor> < 2 ^ 63"
    using assms by (simp add: floor_less_iff)
  have b: "0 \<le> x \<Longrightarrow> 0 \<le> \<lfloor>x\<rfloor>" by simp
  have c: "x < 0 \<Longrightarrow> - (2 ^ 63) < \<lceil>x\<rceil>"
    using assms by (simp add: less_ceiling_iff)
  have d: "x < 0 \<Longrightarrow> \<lceil>x\<rceil> \<le> 0" by (simp add: ceiling_le_iff)
  show "- (2 ^ 63) < to_longlong x" using a b c d by (auto simp add: to_longlong_def) 
  show "to_longlong x < 2 ^ 63" using a b c d by (auto simp add: to_longlong_def)
qed

lemma calib_value_range:
  assumes "0 \<le> v" and "v < 268435456" and "\<forall>b<140. \<bar>cal i b\<bar> \<le> 2 ^ 61"
  shows "\<bar>calib_value cal i v\<bar> < 2 ^ 63"
proof -
  have m: "0 \<le> v mod 140" "v mod 140 \<le> v"
    using assms(1) by (simp_all add: zmod_le_nonneg_dividend)
  define x where "x = real_of_int (v - v mod 140)"
  define y where "y = f64 x"
  define c where "c = f64 (17857 / 1000)"
  define p where "p = f64 (y * c)"
  define z where "z = cal i (nat (v mod 140))"
  have x: "0 \<le> x" "x < 268435456"
    unfolding x_def using m assms(2) by simp_all
  have y0: "0 \<le> y" unfolding y_def using x(1) by (rule f64_nonneg)
  have "\<bar>y\<bar> \<le> 2 * \<bar>x\<bar>" unfolding y_def by (rule f64_abs_le)
  with x y0 have y: "0 \<le> y" "y \<le> 536870912" by linarith+
  have c: "0 \<le> c" "c \<le> 18" unfolding c_def f64_17857 by simp_all
  have "y * c \<le> 536870912 * 18" using y c by (intro mult_mono) simp_all
  moreover have "0 \<le> y * c" using y c by simp
  ultimately have p: "\<bar>p\<bar> \<le> 19327352832"
    using f64_abs_le [of "y * c"] unfolding p_def by linarith
  have q: "(2::real) ^ 61 = 2305843009213693952" "(2::real) ^ 63 = 9223372036854775808"
    by simp_all
  have "nat (v mod 140) < 140" by simp
  with assms(3) have "\<bar>z\<bar> \<le> 2 ^ 61" unfolding z_def by blast
  then have z: "\<bar>z\<bar> \<le> 2305843009213693952" unfolding q .
  have "\<bar>p + z\<bar> \<le> \<bar>p\<bar> + \<bar>z\<bar>" by (rule abs_triangle_ineq)
  also have "\<dots> \<le> 19327352832 + 2305843009213693952" using p z by (rule add_mono)
  finally have "2 * \<bar>p + z\<bar> < 9223372036854775808" by simp
  with f64_abs_le [of "p + z"] have "\<bar>f64 (p + z)\<bar> < 9223372036854775808"
    by (rule le_less_trans)
  then show ?thesis unfolding calib_value_def x_def y_def c_def p_def z_def q .
qed

lemma f64_140: "f64 140 = 140"
  by (subst f64_normal [of 7]) (simp_all add: pow2_def round_half_even_def)

lemma f64_prod_140:
  "f64 (140 * (628287332390273 / 35184372088832)) = 5497514158414889 / 2199023255552"
  by (subst f64_normal [of 11]) (simp_all add: pow2_def round_half_even_def)

lemma f64_sum_140:
  "f64 (5497514158414889 / 2199023255552 + 0) = 5497514158414889 / 2199023255552"
  by (subst f64_normal [of 11]) (simp_all add: pow2_def round_half_even_def)

lemma f64_7280: "f64 7280 = 7280"
  by (subst f64_normal [of 12]) (simp_all add: pow2_def round_half_even_def)

lemma f64_prod_7280:
  "f64 (7280 * (628287332390273 / 35184372088832)) = 4466730253712097 / 34359738368"
  by (subst f64_normal [of 16]) (simp_all add: pow2_def round_half_even_def)

lemma f64_sum_7280:
  "f64 (4466730253712097 / 34359738368 + 5764607523034235 / 144115188075855872)
     = 8933463256203263 / 68719476736"
  by (subst f64_normal [of 16]) (simp_all add: pow2_def round_half_even_def)

lemma f64_004: "f64 (4 / 100) = 5764607523034235 / 144115188075855872"
  by (simp add: f64_def f64_exponent_def Let_def pow2_def round_half_even_def
        compute_floorlog)

lemma f64_zero: "f64 0 = 0"
  by (simp add: f64_def)

lemma f64_minus_one: "f64 (- 1) = - 1"
  by (subst f64_normal [of 0]) (simp_all add: pow2_def round_half_even_def)


subsection \<open>Allocation\<close>

text \<open>
  C9, as the code has it. The matrix that \<^verbatim>\<open>unpack_binary_flex\<close> allocates has 256 rows
  and as many columns as the number of decoded values divided by 256, rounded down, and
  every cell of it is 0 (\<^verbatim>\<open>np.zeros\<close>), not the sentinel \<open>-1\<close>.
\<close>

theorem C9_alloc_zero:
  "shape (flex_alloc timestamp_list) = [256, length timestamp_list div 256]
   \<and> flat (flex_alloc timestamp_list) = replicate (256 * (length timestamp_list div 256)) 0"
  by (simp add: flex_alloc_def np_zeros_def floor_div_256)

text \<open>
  For 256 decoded values, all of them \<open>-1\<close>, the cell of row 0 and column 0 of the
  allocated matrix holds 0 and not \<open>-1\<close>.
\<close>

theorem C9_counterexample:
  "item (flex_alloc (replicate 256 (- 1))) [0, 0] = 0
   \<and> item (flex_alloc (replicate 256 (- 1))) [0, 0] \<noteq> - 1"
  by (simp add: item_def flex_alloc_def np_zeros_def floor_div_256)


subsection \<open>Termination of the packing loop\<close>

text \<open>
  C10. With \<open>T > 0\<close>: when the number of decoded values is a multiple of \<open>256 * T\<close>, the
  packing step of \<^verbatim>\<open>unpack_binary_flex\<close> leaves its loop and returns a matrix; when it is
  not, \<open>noc\<close> is not a whole number, no value of the counter \<open>k\<close> equals it, and the packing
  step never returns a matrix.
\<close>

theorem C10_loop_exit:
  assumes "0 < T"
  shows "(256 * T dvd length ts \<longrightarrow> (\<exists>m. flex_pack ts T = Some (Inr m)))
       \<and> (\<not> 256 * T dvd length ts \<longrightarrow>
            (\<forall>k::nat. real k \<noteq> real (length ts) / real T / 256)
          \<and> (\<forall>m. flex_pack ts T \<noteq> Some (Inr m)))"
proof (intro conjI impI allI)
  assume "256 * T dvd length ts"
  from flex_pack_item [OF assms dvd_cycles [OF assms this]]
  show "\<exists>m. flex_pack ts T = Some (Inr m)" by blast
next
  fix k :: nat
  assume "\<not> 256 * T dvd length ts"
  then show "real k \<noteq> real (length ts) / real T / 256"
    by (rule noc_not_integral [OF assms])
next
  fix m
  assume nd: "\<not> 256 * T dvd length ts"
  show "flex_pack ts T \<noteq> Some (Inr m)"
  proof
    assume "flex_pack ts T = Some (Inr m)"
    then have "pack_cycles T ts (real (length ts) / real T / 256) 0 (flex_alloc ts) = Some (Inr m)"
      using assms by (simp add: flex_pack_def)
    from pack_cycles_returns [OF this] obtain k' :: nat
      where "real k' = real (length ts) / real T / 256" by blast
    with noc_not_integral [OF assms nd, of k'] show False by simp
  qed
qed

theorem C10_loop_exit_witness:
  "(0::nat) < 1
   \<and> 256 * 1 dvd length (replicate 256 (- 1 :: real))
   \<and> (\<exists>m. flex_pack (replicate 256 (- 1)) 1 = Some (Inr m))
   \<and> \<not> 256 * 1 dvd length [- 1 :: real]
   \<and> (\<forall>k::nat. real k \<noteq> real (length [- 1 :: real]) / real (1::nat) / 256)
   \<and> (\<forall>m. flex_pack [- 1] 1 \<noteq> Some (Inr m))"
proof -
  have h: "(0::nat) < 1" by simp
  have d: "256 * 1 dvd length (replicate 256 (- 1 :: real))" by simp
  have n: "\<not> 256 * 1 dvd length [- 1 :: real]" by simp
  from C10_loop_exit [OF h, of "replicate 256 (- 1)"] d
  have "\<exists>m. flex_pack (replicate 256 (- 1)) 1 = Some (Inr m)" by blast
  moreover from C10_loop_exit [OF h, of "[- 1]"] n
  have "(\<forall>k::nat. real k \<noteq> real (length [- 1 :: real]) / real (1::nat) / 256)
      \<and> (\<forall>m. flex_pack [- 1] 1 \<noteq> Some (Inr m))" by blast
  ultimately show ?thesis using h d n by blast
qed

subsection \<open>Inputs that are not whole cycles or whole packets\<close>

text \<open>
  C6, at the input of one invalid packet (four zero bytes) with \<open>T = 1\<close>: the packet count 1
  is not a multiple of 256. \<^verbatim>\<open>unpack_numpy\<close> and \<^verbatim>\<open>unpack_calib\<close> raise \<^verbatim>\<open>ValueError\<close> in their
  first reshape; \<^verbatim>\<open>unpack_binary_flex\<close> raises nothing and never returns.
\<close>

theorem C6_flex_never_returns:
  "unpack_binary_flex [0, 0, 0, 0] 1 = None
   \<and> unpack_numpy [0, 0, 0, 0] 1 = Inl ValueError
   \<and> unpack_calib [0, 0, 0, 0] (Inr (\<lambda>i b. 0)) 1 = Inl ValueError"
proof -
  have w: "np_fromfile [0, 0, 0, 0] = [unpack_I 0 0 0 0]" by simp
  have "flex_pack (map spec_timestamp [unpack_I 0 0 0 0]) 1 = None"
    by (rule flex_pack_hangs) simp_all
  then have a: "unpack_binary_flex [0, 0, 0, 0] 1 = None"
    by (simp add: unpack_binary_flex_eq dvd4_Suc4)
  have "numpy_reshape (map spec_timestamp [unpack_I 0 0 0 0]) 1 = Inl ValueError"
    by (rule numpy_reshape_bad) simp_all
  then have b: "unpack_numpy [0, 0, 0, 0] 1 = Inl ValueError"
    by (simp add: unpack_numpy_eq)
  have "calib_reshape (calib_decode [unpack_I 0 0 0 0]) 1 = Inl ValueError"
    by (rule calib_reshape_bad) (simp_all add: calib_decode_def)
  then have c: "unpack_calib [0, 0, 0, 0] (Inr (\<lambda>i b. 0)) 1 = Inl ValueError"
    by (simp add: unpack_calib_def bind_err_def)
  from a b c show ?thesis by blast
qed

text \<open>
  C7, at the input of 256 invalid packets followed by one stray byte, with \<open>T = 1\<close>:
  \<^verbatim>\<open>unpack_binary_flex\<close> raises \<^verbatim>\<open>struct.error\<close> on the partial packet, while \<^verbatim>\<open>unpack_numpy\<close> and
  \<^verbatim>\<open>unpack_calib\<close> return the matrices of the file without its last byte.
\<close>

theorem C7_partial_packet_dropped:
  "unpack_binary_flex (replicate 1024 0 @ [7]) 1 = Some (Inl StructError)
   \<and> unpack_numpy (replicate 1024 0 @ [7]) 1 = unpack_numpy (replicate 1024 0) 1
   \<and> (\<exists>m. unpack_numpy (replicate 1024 0 @ [7]) 1 = Inr m \<and> shape m = [256, 1])
   \<and> unpack_calib (replicate 1024 0 @ [7]) (Inr (\<lambda>i b. 0)) 1
       = unpack_calib (replicate 1024 0) (Inr (\<lambda>i b. 0)) 1
   \<and> (\<exists>m. unpack_calib (replicate 1024 0 @ [7]) (Inr (\<lambda>i b. 0)) 1 = Inr m \<and> shape m = [256, 1])"
proof -
  let ?file = "replicate 1024 (0::byte)"
  have "\<not> 4 dvd length (?file @ [7])" by simp
  then have a: "unpack_binary_flex (?file @ [7]) 1 = Some (Inl StructError)"
    by (simp only: unpack_binary_flex_eq if_False)
  have w: "np_fromfile (?file @ [7]) = np_fromfile ?file"
    by (rule np_fromfile_append) simp_all
  have l: "length (np_fromfile ?file) = 256 * (1 * 1)" by (simp add: np_fromfile_length)
  have b: "unpack_numpy (?file @ [7]) 1 = unpack_numpy ?file 1"
    by (simp only: unpack_numpy_eq w)
  have c: "unpack_calib (?file @ [7]) (Inr (\<lambda>i b. 0)) 1 = unpack_calib ?file (Inr (\<lambda>i b. 0)) 1"
    by (simp only: unpack_calib_def w)
  from numpy_reshape_ok [of 1 "map spec_timestamp (np_fromfile ?file)" 1] l
  obtain m where "unpack_numpy ?file 1 = Inr m" "shape m = [256, 1]"
    by (auto simp add: unpack_numpy_eq)
  moreover from unpack_calib_ok [of 1 ?file 1 "\<lambda>i b. 0"] l calib_loop_ok(1)
  obtain m' where "unpack_calib ?file (Inr (\<lambda>i b. 0)) 1 = Inr m'" "shape m' = [256, 1]"
    by fastforce
  ultimately show ?thesis using a b c by simp
qed


subsection \<open>Calibration\<close>

lemma offset_in_range:
  fixes i :: nat
  assumes "i < 256" and "k < C" and "s < T"
  shows "(i + 256 * k) * T + s < 256 * (T * C)"
proof -
  have "k * 256 + i < C * 256" using block_index [OF assms(2,1)] .
  then have "i + 256 * k < 256 * C" by (simp add: mult.commute add.commute)
  from block_index [OF this assms(3)] show ?thesis by (simp add: mult_ac)
qed

lemma unpack_calib_entry:
  assumes T: "0 < T" and len: "length (np_fromfile file) = 256 * (T * C)"
      and i: "i < 256" and k: "k < C" and s: "s < T"
  shows "\<exists>m. unpack_calib file (Inr cal) T = Inr m \<and> shape m = [256, T * C]
           \<and> item m [i, k * T + s] =
               calib_element cal i (calib_decode (np_fromfile file) ! ((i + 256 * k) * T + s))"
proof -
  from unpack_calib_ok [OF T len, of cal] i k s obtain d where
    sh: "shape d = [256, T * C]" and l: "length (flat d) = 256 * (T * C)" and
    it: "item d [i, k * T + s] = calib_decode (np_fromfile file) ! ((i + 256 * k) * T + s)" and
    e: "unpack_calib file (Inr cal) T = Inr (calib_loop cal d)"
    by blast
  have j: "k * T + s < T * C" using block_index [OF k s] by (simp add: mult.commute)
  from calib_loop_ok(1) [OF sh l] calib_loop_ok(3) [OF sh l i j] it e
  show ?thesis by simp
qed

lemma calib_loop_flat:
  assumes sh: "shape m = [256, c]" and len: "length (flat m) = 256 * c" and n: "n < 256 * c"
  shows "\<exists>i<256. flat (calib_loop cal m) ! n = calib_element cal i (flat m ! n)"
proof -
  from n have c: "0 < c" by (cases c) simp_all
  have i: "n div c < 256" using n c by (simp add: less_mult_imp_div_less mult.commute)
  have j: "n mod c < c" using c by simp
  have d: "n = n div c * c + n mod c" by (rule div_mult_mod_eq [symmetric])
  from calib_loop_ok(3) [OF sh len i j, of cal] calib_loop_ok(1) [OF sh len, of cal]
  have "flat (calib_loop cal m) ! (n div c * c + n mod c)
          = calib_element cal (n div c) (flat m ! (n div c * c + n mod c))"
    by (simp add: item_2d sh)
  then have "flat (calib_loop cal m) ! n = calib_element cal (n div c) (flat m ! n)"
    using d by simp
  with i show ?thesis by blast
qed

lemma ceiling_minus_one: "\<lceil>- 1 :: real\<rceil> = - 1"
  using ceiling_of_int [of "- 1", where ?'a = real] by simp

lemma calib_element_sentinel: "calib_element cal i (- 1) = - 1"
  by (simp add: calib_element_def)

lemma calib_element_not_sentinel:
  assumes "\<forall>b<140. 0 \<le> cal i b"
  shows "(calib_element cal i v = - 1) = (v = - 1)"
proof (cases "0 \<le> v")
  case True
  from to_longlong_nonneg [OF calib_value_nonneg [where cal = cal and i = i, OF True assms]] True
  show ?thesis by (simp add: calib_element_def)
next
  case False
  then show ?thesis by (simp add: calib_element_def)
qed

text \<open>
  C1, as the code has it. For a file whose packet count is a multiple of \<open>256 * T\<close>, with
  \<open>T > 0\<close>, and a table whose offsets for row \<open>i\<close> are at most \<open>2 ^ 61\<close> in magnitude:
  \<^verbatim>\<open>unpack_calib\<close> returns a matrix of 64-bit integers in which the entry of row \<open>i\<close>,
  column \<open>k * T + s\<close>, for a decoded count \<open>v \<ge> 0\<close>, is the \<^verbatim>\<open>float64\<close> value of
  \<open>(v - v mod 140) * 17.857 + cal_mat i (v mod 140)\<close> (the product and the sum each rounded
  to binary64) with its fractional part dropped (rounded towards zero), and is \<open>v\<close> itself
  when \<open>v\<close> is the sentinel; the entry fits 64 bits.
\<close>

theorem C1_calibrated_entry:
  assumes "0 < T" and "256 * T dvd length (np_fromfile file)"
      and "i < 256" and "k < length (np_fromfile file) div (256 * T)" and "s < T"
      and "\<forall>b<140. \<bar>cal_mat i b\<bar> \<le> 2 ^ 61"
      and "v = calib_decode (np_fromfile file) ! ((i + 256 * k) * T + s)"
  shows "\<exists>m. unpack_calib file (Inr cal_mat) T = Inr m
           \<and> shape m = [256, T * (length (np_fromfile file) div (256 * T))]
           \<and> item m [i, k * T + s] =
               (if 0 \<le> v
                then to_longlong
                       (f64 (f64 (f64 (real_of_int (v - v mod 140)) * f64 (17857 / 1000))
                             + cal_mat i (nat (v mod 140))))
                else v)
           \<and> - (2 ^ 63) < item m [i, k * T + s] \<and> item m [i, k * T + s] < 2 ^ 63"
proof -
  let ?C = "length (np_fromfile file) div (256 * T)"
  have len: "length (np_fromfile file) = 256 * (T * ?C)" by (rule dvd_cycles [OF assms(1,2)])
  from unpack_calib_entry [OF assms(1) len assms(3,4,5), of cal_mat] obtain m where
    e: "unpack_calib file (Inr cal_mat) T = Inr m" and sh: "shape m = [256, T * ?C]" and
    it: "item m [i, k * T + s] = calib_element cal_mat i v"
    unfolding assms(7) by blast
  have "(i + 256 * k) * T + s < length (np_fromfile file)"
    using offset_in_range [OF assms(3,4,5)] len by simp
  from calib_decode_range [OF this] have v: "- 1 \<le> v" "v < 268435456"
    unfolding assms(7) by simp_all
  have r: "- (2 ^ 63) < calib_element cal_mat i v \<and> calib_element cal_mat i v < 2 ^ 63"
  proof (cases "0 \<le> v")
    case True
    from to_longlong_range [OF calib_value_range [where cal = cal_mat and i = i, OF True v(2) assms(6)]] True
    show ?thesis by (simp add: calib_element_def)
  next
    case False
    with v show ?thesis by (simp add: calib_element_def)
  qed
  have ce: "calib_element cal_mat i v =
              (if 0 \<le> v
               then to_longlong
                      (f64 (f64 (f64 (real_of_int (v - v mod 140)) * f64 (17857 / 1000))
                            + cal_mat i (nat (v mod 140))))
               else v)"
    unfolding calib_element_def calib_value_def ..
  from r have r': "- (2 ^ 63) < item m [i, k * T + s] \<and> item m [i, k * T + s] < 2 ^ 63"
    unfolding it .
  from e sh it [unfolded ce] r' show ?thesis by blast
qed

lemma calib_example_file:
  "length (np_fromfile ([140, 0, 0, 0x80] @ replicate 1020 0)) = 256 * (1 * 1)"
  "calib_decode (np_fromfile ([140, 0, 0, 0x80] @ replicate 1020 0)) ! 0 = 140"
  by (simp_all add: np_fromfile_length calib_decode_def unpack_I_def)

lemma calib_example_file_7280:
  "length (np_fromfile ([0x70, 0x1C, 0, 0x80] @ replicate 1020 0)) = 256 * (1 * 1)"
  "calib_decode (np_fromfile ([0x70, 0x1C, 0, 0x80] @ replicate 1020 0)) ! 0 = 7280"
  by (simp_all add: np_fromfile_length calib_decode_def unpack_I_def)

lemma calib_value_140:
  "to_longlong (f64 (f64 (f64 (real_of_int (140 - 140 mod 140)) * f64 (17857 / 1000)) + 0))
     = 2499"
proof -
  have a: "real_of_int (140 - 140 mod 140) = 140" by simp
  have "to_longlong (5497514158414889 / 2199023255552) = 2499"
    by (simp add: to_longlong_def)
  then show ?thesis unfolding a f64_140 f64_17857 f64_prod_140 f64_sum_140 .
qed

lemma calib_value_7280:
  "to_longlong (f64 (f64 (f64 (real_of_int (7280 - 7280 mod 140)) * f64 (17857 / 1000))
                     + f64 (4 / 100)))
     = 129998"
proof -
  have a: "real_of_int (7280 - 7280 mod 140) = 7280" by simp
  have "to_longlong (8933463256203263 / 68719476736) = 129998"
    by (simp add: to_longlong_def)
  then show ?thesis unfolding a f64_7280 f64_17857 f64_004 f64_prod_7280 f64_sum_7280 .
qed

text \<open>
  The file of 256 packets whose first packet is valid with count \<open>7280 = 52 * 140\<close> and whose
  other packets are invalid, with \<open>T = 1\<close> and a table whose offsets are all the \<^verbatim>\<open>float64\<close>
  \<^verbatim>\<open>0.04\<close>: the product \<^verbatim>\<open>7280 * 17.857\<close> is \<open>129998.96\<close> and the sum is just below \<open>129999\<close>
  in \<^verbatim>\<open>float64\<close> (the exact sum of the decimal numbers is \<open>129999\<close>), and the returned
  matrix holds 129998 in row 0, column 0.
\<close>

theorem C1_calibrated_entry_witness:
  "(0::nat) < 1 \<and> 256 * 1 dvd length (np_fromfile ([0x70, 0x1C, 0, 0x80] @ replicate 1020 0))
   \<and> (0::nat) < 256
   \<and> 0 < length (np_fromfile ([0x70, 0x1C, 0, 0x80] @ replicate 1020 0)) div (256 * 1)
   \<and> (7280::int)
       = calib_decode (np_fromfile ([0x70, 0x1C, 0, 0x80] @ replicate 1020 0)) ! ((0 + 256 * 0) * 1 + 0)
   \<and> (0::int) \<le> 7280
   \<and> (\<exists>m. unpack_calib ([0x70, 0x1C, 0, 0x80] @ replicate 1020 0) (Inr (\<lambda>i b. f64 (4 / 100))) 1
            = Inr m
          \<and> shape m = [256, 1] \<and> item m [0, 0] = 129998)"
proof -
  define dat where "dat = [0x70, 0x1C, 0, 0x80] @ replicate 1020 (0::byte)"
  have f1: "length (np_fromfile dat) = 256 * (1 * 1)"
    unfolding dat_def by (rule calib_example_file_7280(1))
  have f2: "calib_decode (np_fromfile dat) ! 0 = 7280"
    unfolding dat_def by (rule calib_example_file_7280(2))
  have h1: "(0::nat) < 1" by simp
  have h2: "256 * 1 dvd length (np_fromfile dat)" by (simp add: f1)
  have h3: "(0::nat) < 256" by simp
  have h4: "0 < length (np_fromfile dat) div (256 * 1)" by (simp add: f1)
  have h5: "\<forall>b<140. \<bar>(\<lambda>i b. f64 (4 / 100)) 0 b\<bar> \<le> 2 ^ 61"
    unfolding f64_004 by simp
  have h6: "(7280::int) = calib_decode (np_fromfile dat) ! ((0 + 256 * 0) * 1 + 0)"
    by (simp add: f2)
  have h7: "(0::int) \<le> 7280" by simp
  from C1_calibrated_entry [OF h1 h2 h3 h4 h1 h5 h6] obtain m where
    m: "unpack_calib dat (Inr (\<lambda>i b. f64 (4 / 100))) 1 = Inr m
      \<and> shape m = [256, 1 * (length (np_fromfile dat) div (256 * 1))]
      \<and> item m [0, 0 * 1 + 0] =
         (if (0::int) \<le> 7280
          then to_longlong
                 (f64 (f64 (f64 (real_of_int (7280 - 7280 mod 140)) * f64 (17857 / 1000))
                       + f64 (4 / 100)))
          else 7280)
      \<and> - (2 ^ 63) < item m [0, 0 * 1 + 0] \<and> item m [0, 0 * 1 + 0] < 2 ^ 63"
    ..
  from m have "unpack_calib dat (Inr (\<lambda>i b. f64 (4 / 100))) 1 = Inr m \<and> shape m = [256, 1]
             \<and> item m [0, 0] = 129998"
    unfolding calib_value_7280 by (simp add: f1)
  then have ex: "\<exists>m. unpack_calib dat (Inr (\<lambda>i b. f64 (4 / 100))) 1 = Inr m
             \<and> shape m = [256, 1] \<and> item m [0, 0] = 129998" ..
  have
    "(0::nat) < 1 \<and> 256 * 1 dvd length (np_fromfile dat)
     \<and> (0::nat) < 256 \<and> 0 < length (np_fromfile dat) div (256 * 1)
       \<and> (7280::int) = calib_decode (np_fromfile dat) ! ((0 + 256 * 0) * 1 + 0)
     \<and> (0::int) \<le> 7280
     \<and> (\<exists>m. unpack_calib dat (Inr (\<lambda>i b. f64 (4 / 100))) 1 = Inr m
            \<and> shape m = [256, 1] \<and> item m [0, 0] = 129998)"
    by (intro conjI h1 h2 h3 h4 h6 h7 ex)
  then show ?thesis unfolding dat_def .
qed

text \<open>
  The file of 256 packets whose first packet is valid with count 140 and whose other packets
  are invalid, with \<open>T = 1\<close> and a table of zeros: the claimed value of row 0, column 0 is
  \<open>140 * 17.857 = 2499.98\<close>, and the returned matrix holds the integer 2499 there.
\<close>

theorem C1_counterexample:
  "\<exists>m. unpack_calib ([140, 0, 0, 0x80] @ replicate 1020 0) (Inr (\<lambda>i b. 0)) 1 = Inr m
      \<and> calib_decode (np_fromfile ([140, 0, 0, 0x80] @ replicate 1020 0)) ! 0 = 140
      \<and> real_of_int (140 - 140 mod 140) * (17857 / 1000) + (\<lambda>i b. 0) 0 (nat (140 mod 140))
           = (124999 / 50 :: real)
      \<and> item m [0, 0] = 2499
      \<and> real_of_int (item m [0, 0])
           \<noteq> real_of_int (140 - 140 mod 140) * (17857 / 1000) + (\<lambda>i b. 0) 0 (nat (140 mod 140))"
proof -
  define dat where "dat = [140, 0, 0, 0x80] @ replicate 1020 (0::byte)"
  have f1: "length (np_fromfile dat) = 256 * (1 * 1)"
    unfolding dat_def by (rule calib_example_file(1))
  have f2: "calib_decode (np_fromfile dat) ! 0 = 140"
    unfolding dat_def by (rule calib_example_file(2))
  from unpack_calib_entry [OF _ f1, of 0 0 0 "\<lambda>i b. 0"] obtain m where
    e: "unpack_calib dat (Inr (\<lambda>i b. 0)) 1 = Inr m" and
    "item m [0, 0 * 1 + 0] =
       calib_element (\<lambda>i b. 0) 0 (calib_decode (np_fromfile dat) ! ((0 + 256 * 0) * 1 + 0))"
    by auto
  then have "item m [0, 0] = calib_element (\<lambda>i b. 0) 0 140" by (simp add: f2)
  also have "calib_element (\<lambda>i b. 0) 0 140 =
      to_longlong (f64 (f64 (f64 (real_of_int (140 - 140 mod 140)) * f64 (17857 / 1000)) + 0))"
    unfolding calib_element_def calib_value_def by (rule if_P) simp
  finally have v: "item m [0, 0] = 2499" unfolding calib_value_140 .
  have c: "real_of_int (140 - 140 mod 140) * (17857 / 1000) + (\<lambda>i b. 0) 0 (nat (140 mod 140))
           = (124999 / 50 :: real)"
    by simp
  have "real_of_int (item m [0, 0]) \<noteq> (124999 / 50 :: real)" unfolding v by simp
  with e f2 v c have
    "\<exists>m. unpack_calib dat (Inr (\<lambda>i b. 0)) 1 = Inr m
      \<and> calib_decode (np_fromfile dat) ! 0 = 140
      \<and> real_of_int (140 - 140 mod 140) * (17857 / 1000) + (\<lambda>i b. 0) 0 (nat (140 mod 140))
           = (124999 / 50 :: real)
      \<and> item m [0, 0] = 2499
      \<and> real_of_int (item m [0, 0])
           \<noteq> real_of_int (140 - 140 mod 140) * (17857 / 1000) + (\<lambda>i b. 0) 0 (nat (140 mod 140))"
    by (intro exI [of _ m]) simp
  then show ?thesis unfolding dat_def .
qed

text \<open>
  C5, as the code has it. For a matrix of 256 rows, the calibration loop leaves every entry
  equal to \<open>-1\<close> equal to \<open>-1\<close>, so the number of such entries does not decrease; it stays the
  same when every offset of the table is non-negative.
\<close>

theorem C5_sentinel_kept:
  assumes "shape dm = [256, c]" and "length (flat dm) = 256 * c"
  shows "(\<forall>i<256. \<forall>j<c. item dm [i, j] = - 1 \<longrightarrow> item (calib_loop cal_mat dm) [i, j] = - 1)
       \<and> count_list (flat dm) (- 1) \<le> count_list (flat (calib_loop cal_mat dm)) (- 1)
       \<and> ((\<forall>i<256. \<forall>b<140. 0 \<le> cal_mat i b) \<longrightarrow>
            count_list (flat (calib_loop cal_mat dm)) (- 1) = count_list (flat dm) (- 1))"
proof (intro conjI allI impI)
  fix i j :: nat
  assume "i < 256" "j < c" "item dm [i, j] = - 1"
  with calib_loop_ok(3) [OF assms, of i j cal_mat]
  show "item (calib_loop cal_mat dm) [i, j] = - 1" by (simp add: calib_element_sentinel)
next
  have l: "length (flat dm) = length (flat (calib_loop cal_mat dm))"
    using calib_loop_ok(2) [OF assms, of cal_mat] assms(2) by simp
  have "\<forall>n<length (flat dm). flat dm ! n = - 1 \<longrightarrow> flat (calib_loop cal_mat dm) ! n = - 1"
  proof (intro allI impI)
    fix n assume "n < length (flat dm)" "flat dm ! n = - 1"
    with calib_loop_flat [OF assms, of n cal_mat] assms(2)
    show "flat (calib_loop cal_mat dm) ! n = - 1" by (auto simp add: calib_element_sentinel)
  qed
  with l show "count_list (flat dm) (- 1) \<le> count_list (flat (calib_loop cal_mat dm)) (- 1)"
    by (rule count_list_mono)
next
  assume nn: "\<forall>i<256. \<forall>b<140. 0 \<le> cal_mat i b"
  have l: "length (flat (calib_loop cal_mat dm)) = length (flat dm)"
    using calib_loop_ok(2) [OF assms, of cal_mat] assms(2) by simp
  have "\<forall>n<length (flat (calib_loop cal_mat dm)).
          (flat (calib_loop cal_mat dm) ! n = - 1) = (flat dm ! n = - 1)"
  proof (intro allI impI)
    fix n assume "n < length (flat (calib_loop cal_mat dm))"
    then have "n < 256 * c" using l assms(2) by simp
    from calib_loop_flat [OF assms this, of cal_mat] obtain i where
      "i < 256" "flat (calib_loop cal_mat dm) ! n = calib_element cal_mat i (flat dm ! n)"
      by blast
    with nn show "(flat (calib_loop cal_mat dm) ! n = - 1) = (flat dm ! n = - 1)"
      by (simp add: calib_element_not_sentinel)
  qed
  with l show "count_list (flat (calib_loop cal_mat dm)) (- 1) = count_list (flat dm) (- 1)"
    by (rule count_list_same)
qed

theorem C5_sentinel_kept_witness:
  "shape \<lparr>shape = [256, 1], flat = replicate 256 (- 1 :: int)\<rparr> = [256, 1]
   \<and> length (flat \<lparr>shape = [256, 1], flat = replicate 256 (- 1 :: int)\<rparr>) = 256 * 1
   \<and> (0::nat) < 256 \<and> (0::nat) < 1
   \<and> item \<lparr>shape = [256, 1], flat = replicate 256 (- 1 :: int)\<rparr> [0, 0] = - 1
   \<and> item (calib_loop (\<lambda>i b. 0) \<lparr>shape = [256, 1], flat = replicate 256 (- 1)\<rparr>) [0, 0] = - 1
   \<and> count_list (flat (calib_loop (\<lambda>i b. 0) \<lparr>shape = [256, 1], flat = replicate 256 (- 1)\<rparr>)) (- 1)
       = 256"
proof -
  let ?dm = "\<lparr>shape = [256, 1], flat = replicate 256 (- 1 :: int)\<rparr>"
  have h1: "shape ?dm = [256, 1]" by simp
  have h2: "length (flat ?dm) = 256 * 1" by simp
  have h3: "item ?dm [0, 0] = - 1" by (simp add: item_def)
  have h4: "\<forall>i<256. \<forall>b<140. 0 \<le> (\<lambda>i b. 0 :: real) i b" by simp
  from C5_sentinel_kept [OF h1 h2, of "\<lambda>i b. 0"] h3 h4
  have "item (calib_loop (\<lambda>i b. 0) ?dm) [0, 0] = - 1"
    and "count_list (flat (calib_loop (\<lambda>i b. 0) ?dm)) (- 1) = count_list (flat ?dm) (- 1)"
    by simp_all
  then show ?thesis using h3 by (simp add: count_list_replicate)
qed

text \<open>
  The matrix of one column whose row 0 holds the valid count 0 and whose other rows hold
  \<open>-1\<close> (the file of 256 packets with only the first one valid, \<open>T = 1\<close>), with a table whose
  offsets are all \<open>-1\<close>: the corrected value of row 0 is \<open>0 * 17.857 - 1 = -1\<close>, so the matrix
  has 255 entries \<open>-1\<close> before the correction and 256 after it.
\<close>

theorem C5_counterexample:
  "count_list (flat \<lparr>shape = [256, 1], flat = 0 # replicate 255 (- 1 :: int)\<rparr>) (- 1) = 255
   \<and> count_list (flat (calib_loop (\<lambda>i b. - 1)
                         \<lparr>shape = [256, 1], flat = 0 # replicate 255 (- 1)\<rparr>)) (- 1) = 256"
proof -
  let ?dm = "\<lparr>shape = [256, 1], flat = 0 # replicate 255 (- 1 :: int)\<rparr>"
  let ?cal = "\<lambda>(i::nat) (b::nat). - 1 :: real"
  have sh: "shape ?dm = [256, 1]" and len: "length (flat ?dm) = 256 * 1" by simp_all
  have z: "calib_element ?cal i 0 = - 1" for i
    by (simp add: calib_element_def calib_value_def f64_zero f64_minus_one to_longlong_def
          ceiling_minus_one)
  have "flat (calib_loop ?cal ?dm) = replicate 256 (- 1)"
  proof (rule nth_equalityI)
    show "length (flat (calib_loop ?cal ?dm)) = length (replicate 256 (- 1 :: int))"
      using calib_loop_ok(2) [OF sh len, of ?cal] by simp
  next
    fix n assume "n < length (flat (calib_loop ?cal ?dm))"
    then have n: "n < 256 * 1" using calib_loop_ok(2) [OF sh len, of ?cal] by simp
    from calib_loop_flat [OF sh len n, of ?cal] obtain i where
      "flat (calib_loop ?cal ?dm) ! n = calib_element ?cal i (flat ?dm ! n)" by blast
    moreover have "flat ?dm ! n = 0 \<or> flat ?dm ! n = - 1" using n by (cases n) simp_all
    ultimately have "flat (calib_loop ?cal ?dm) ! n = - 1"
      using z [of i] calib_element_sentinel [of ?cal i] by auto
    with n show "flat (calib_loop ?cal ?dm) ! n = replicate 256 (- 1) ! n" by simp
  qed
  then show ?thesis by (simp add: count_list_replicate)
qed

text \<open>
  C8, as the code has it. When \<^verbatim>\<open>calibrate_load\<close> raises \<^verbatim>\<open>FileNotFoundError\<close>, \<^verbatim>\<open>unpack_calib\<close>
  never returns a matrix; when the decode and the reshape have succeeded (\<open>T > 0\<close> and a
  packet count that is a multiple of \<open>256 * T\<close>) it ends in \<^verbatim>\<open>sys.exit()\<close>.
\<close>

theorem C8_exit_on_missing_calibration:
  "(0 < T \<and> 256 * T dvd length (np_fromfile file) \<longrightarrow>
      unpack_calib file (Inl FileNotFoundError) T = Inl SystemExit)
   \<and> (\<forall>m. unpack_calib file (Inl FileNotFoundError) T \<noteq> Inr m)"
proof (intro conjI impI allI)
  assume h: "0 < T \<and> 256 * T dvd length (np_fromfile file)"
  then have T: "0 < T" and d: "256 * T dvd length (np_fromfile file)" by simp_all
  from unpack_calib_ok [OF T dvd_cycles [OF T d]]
  show "unpack_calib file (Inl FileNotFoundError) T = Inl SystemExit" by blast
next
  fix m
  show "unpack_calib file (Inl FileNotFoundError) T \<noteq> Inr m"
    by (cases "calib_reshape (calib_decode (np_fromfile file)) T")
       (simp_all add: unpack_calib_def bind_err_def)
qed

theorem C8_exit_on_missing_calibration_witness:
  "(0::nat) < 1 \<and> 256 * 1 dvd length (np_fromfile (replicate 1024 0))
   \<and> unpack_calib (replicate 1024 0) (Inl FileNotFoundError) 1 = Inl SystemExit
   \<and> (\<forall>m. unpack_calib (replicate 1024 0) (Inl FileNotFoundError) 1 \<noteq> Inr m)"
proof -
  have h: "(0::nat) < 1 \<and> 256 * 1 dvd length (np_fromfile (replicate 1024 0))"
    by (simp add: np_fromfile_length)
  with C8_exit_on_missing_calibration [of 1 "replicate 1024 0"] show ?thesis by blast
qed

text \<open>
  The file of 256 invalid packets with \<open>T = 1\<close>, when no calibration file is found: the
  outcome is \<^verbatim>\<open>SystemExit\<close>, the exit of the interpreter.
\<close>

theorem C8_counterexample:
  "unpack_calib (replicate 1024 0) (Inl FileNotFoundError) 1 = Inl SystemExit"
proof -
  have "length (np_fromfile (replicate 1024 0)) = 256 * (1 * 1)"
    by (simp add: np_fromfile_length)
  from unpack_calib_ok [OF zero_less_one this] show ?thesis by blast
qed

end
